theory Spec2Isabelle
  imports Main "HOL-Library.Word"
begin

section \<open>Text as the program sees it\<close>

text \<open>
  The program works on Python \<open>str\<close> values. A text is modelled as a \<open>string\<close> whose
  characters are the code points 0 to 255; the character classes below are Python's
  (\<open>str.isspace\<close>, the \<open>re\<close> module's classes for \<open>str\<close> patterns, the line boundaries of
  \<open>str.splitlines\<close>) restricted to that range.
\<close>

abbreviation LF :: char where "LF \<equiv> CHR 0x0A"
abbreviation CR :: char where "CR \<equiv> CHR 0x0D"
abbreviation SP :: char where "SP \<equiv> CHR 0x20"

definition code :: "char \<Rightarrow> nat" where
  "code c = of_char c"

definition is_space :: "char \<Rightarrow> bool" where
  "is_space c = (let n = code c in
     (9 \<le> n \<and> n \<le> 13) \<or> (28 \<le> n \<and> n \<le> 32) \<or> n = 133 \<or> n = 160)"

definition is_digit :: "char \<Rightarrow> bool" where
  "is_digit c = (let n = code c in 48 \<le> n \<and> n \<le> 57)"

definition is_upper :: "char \<Rightarrow> bool" where
  "is_upper c = (let n = code c in 65 \<le> n \<and> n \<le> 90)"

definition is_lower :: "char \<Rightarrow> bool" where
  "is_lower c = (let n = code c in 97 \<le> n \<and> n \<le> 122)"

definition is_word :: "char \<Rightarrow> bool" where
  "is_word c = (let n = code c in
     is_digit c \<or> is_upper c \<or> is_lower c \<or> n = 95 \<or>
     n = 170 \<or> n = 178 \<or> n = 179 \<or> n = 181 \<or> n = 185 \<or> n = 186 \<or>
     (188 \<le> n \<and> n \<le> 190) \<or> (192 \<le> n \<and> n \<le> 214) \<or>
     (216 \<le> n \<and> n \<le> 246) \<or> 248 \<le> n)"

definition is_linebreak :: "char \<Rightarrow> bool" where
  "is_linebreak c = (let n = code c in
     (10 \<le> n \<and> n \<le> 13) \<or> (28 \<le> n \<and> n \<le> 30) \<or> n = 133)"

subsection \<open>String methods\<close>

text \<open>\<open>sep.join(xs)\<close>.\<close>

fun join :: "string \<Rightarrow> string list \<Rightarrow> string" where
  "join sep [] = []"
| "join sep [x] = x"
| "join sep (x # y # ys) = x @ sep @ join sep (y # ys)"

text \<open>
  \<open>text.splitlines()\<close>: the text is cut at every line boundary, \<open>\r\n\<close> counts as one
  boundary, the boundaries are dropped, and a boundary at the very end opens no further line.
  The first argument is the line collected so far.
\<close>

fun splitlines_from :: "string \<Rightarrow> string \<Rightarrow> string list" where
  "splitlines_from cur [] = (if cur = [] then [] else [cur])"
| "splitlines_from cur (c # cs) =
     (if c = CR then
        (case cs of
           [] \<Rightarrow> cur # splitlines_from [] cs
         | d # ds \<Rightarrow> if d = LF then cur # splitlines_from [] ds
                     else cur # splitlines_from [] cs)
      else if is_linebreak c then cur # splitlines_from [] cs
      else splitlines_from (cur @ [c]) cs)"

definition splitlines :: "string \<Rightarrow> string list" where
  "splitlines text = splitlines_from [] text"

text \<open>\<open>text.split()\<close>: the maximal runs of characters that are not whitespace.\<close>

fun split_from :: "string \<Rightarrow> string \<Rightarrow> string list" where
  "split_from cur [] = (if cur = [] then [] else [cur])"
| "split_from cur (c # cs) =
     (if is_space c then (if cur = [] then split_from [] cs else cur # split_from [] cs)
      else split_from (cur @ [c]) cs)"

definition split_ws :: "string \<Rightarrow> string list" where
  "split_ws text = split_from [] text"

text \<open>\<open>s.strip()\<close> and \<open>s.replace("\n", " ")\<close>.\<close>

definition strip :: "string \<Rightarrow> string" where
  "strip s = rev (dropWhile is_space (rev (dropWhile is_space s)))"

definition replace_newlines :: "string \<Rightarrow> string" where
  "replace_newlines s = map (\<lambda>c. if c = LF then SP else c) s"

section \<open>The regular expressions of the program\<close>

text \<open>
  Every pattern of the program is a sequence of character classes, each with a greedy
  repetition, between optional anchors. A pattern is a list of items; the matcher is the
  backtracking matcher of \<open>re\<close>: an item first takes as many characters as it can and gives
  them back one at a time while the rest of the pattern fails. A match is returned as the
  list of the texts taken by the items, in order, so a group of the pattern that encloses
  one item is the entry of that item.
\<close>

datatype cclass = Space | Digit | Word | Upper | Lower | Lit char

fun in_class :: "cclass \<Rightarrow> char \<Rightarrow> bool" where
  "in_class Space c = is_space c"
| "in_class Digit c = is_digit c"
| "in_class Word c = is_word c"
| "in_class Upper c = is_upper c"
| "in_class Lower c = is_lower c"
| "in_class (Lit d) c = (c = d)"

datatype item = Chars cclass nat "nat option" | Bos | Eos

abbreviation once :: "cclass \<Rightarrow> item" where "once c \<equiv> Chars c 1 (Some 1)"
abbreviation many0 :: "cclass \<Rightarrow> item" where "many0 c \<equiv> Chars c 0 None"
abbreviation many1 :: "cclass \<Rightarrow> item" where "many1 c \<equiv> Chars c 1 None"
abbreviation exactly :: "nat \<Rightarrow> cclass \<Rightarrow> item" where "exactly n c \<equiv> Chars c n (Some n)"

text \<open>
  \<open>try_from k s m n\<close>: the item takes \<open>n\<close> characters of \<open>s\<close>, then \<open>n - 1\<close>, down to its
  minimum \<open>m\<close>; \<open>k j\<close> is the match of the rest of the pattern after \<open>j\<close> characters.
\<close>

primrec try_from :: "(nat \<Rightarrow> string list option) \<Rightarrow> string \<Rightarrow> nat \<Rightarrow> nat \<Rightarrow> string list option" where
  "try_from k s m 0 =
     (if m = 0 then (case k 0 of None \<Rightarrow> None | Some ps \<Rightarrow> Some ([] # ps)) else None)"
| "try_from k s m (Suc n) =
     (if Suc n < m then None
      else (case k (Suc n) of
              Some ps \<Rightarrow> Some (take (Suc n) s # ps)
            | None \<Rightarrow> try_from k s m n))"

definition run :: "cclass \<Rightarrow> string \<Rightarrow> nat" where
  "run c s = length (takeWhile (in_class c) s)"

text \<open>
  \<open>match_items p pos s\<close>: the match of pattern \<open>p\<close> that starts at offset \<open>pos\<close> of the
  subject, where \<open>s\<close> is the subject from \<open>pos\<close> on. \<open>^\<close> matches at offset 0; \<open>$\<close> matches at
  the end of the subject and before a line feed that ends it.
\<close>

primrec match_items :: "item list \<Rightarrow> nat \<Rightarrow> string \<Rightarrow> string list option" where
  "match_items [] = (\<lambda>pos s. Some [])"
| "match_items (it # its) = (\<lambda>pos s.
     (case it of
        Bos \<Rightarrow> if pos = 0 then map_option (Cons []) (match_items its pos s) else None
      | Eos \<Rightarrow> if s = [] \<or> s = [LF] then map_option (Cons []) (match_items its pos s) else None
      | Chars c m mx \<Rightarrow>
          try_from (\<lambda>j. match_items its (pos + j) (drop j s)) s m
            (case mx of None \<Rightarrow> run c s | Some k \<Rightarrow> min k (run c s))))"

text \<open>\<open>re.match(p, s)\<close> as a truth value.\<close>

definition re_match :: "item list \<Rightarrow> string \<Rightarrow> bool" where
  "re_match p s = (match_items p 0 s \<noteq> None)"

text \<open>A match is made of characters of the subject: its pieces, put together, are a prefix.\<close>

lemma try_from_Some:
  "try_from k s m n = Some r \<Longrightarrow>
   \<exists>j ps. m \<le> j \<and> j \<le> n \<and> k j = Some ps \<and> r = take j s # ps \<and>
          (\<forall>i. j < i \<and> i \<le> n \<longrightarrow> k i = None)"
proof (induction n)
  case 0
  then show ?case by (auto split: if_splits option.splits)
next
  case (Suc n)
  show ?case
  proof (cases "k (Suc n)")
    case (Some ps)
    with Suc.prems have "m \<le> Suc n" "r = take (Suc n) s # ps"
      by (auto split: if_splits)
    with Some show ?thesis by (intro exI [of _ "Suc n"] exI [of _ ps]) auto
  next
    case None
    with Suc.prems have "try_from k s m n = Some r" and le: "m \<le> Suc n"
      by (auto split: if_splits)
    from Suc.IH [OF this(1)] obtain j ps where
      j: "m \<le> j" "j \<le> n" "k j = Some ps" "r = take j s # ps"
         "\<forall>i. j < i \<and> i \<le> n \<longrightarrow> k i = None"
      by blast
    have "\<forall>i. j < i \<and> i \<le> Suc n \<longrightarrow> k i = None"
      using j(5) None by (auto simp: le_Suc_eq)
    with j show ?thesis by (intro exI [of _ j] exI [of _ ps]) simp
  qed
qed

lemma match_items_prefix:
  "match_items p pos s = Some ps \<Longrightarrow> \<exists>rest. s = concat ps @ rest"
proof (induction p arbitrary: pos s ps)
  case Nil
  then show ?case by simp
next
  case (Cons it its)
  show ?case
  proof (cases it)
    case (Chars c m mx)
    with Cons.prems obtain j qs where
      j: "match_items its (pos + j) (drop j s) = Some qs" "ps = take j s # qs"
      by (auto dest!: try_from_Some)
    from Cons.IH [OF j(1)] obtain rest where "drop j s = concat qs @ rest" ..
    then have "s = concat (take j s # qs) @ rest"
      by (metis append_take_drop_id append_assoc concat.simps(2))
    with j(2) show ?thesis by blast
  next
    case Bos
    with Cons.prems obtain qs where "match_items its pos s = Some qs" "ps = [] # qs"
      by (auto split: if_splits)
    with Cons.IH [of pos s qs] show ?thesis by simp
  next
    case Eos
    with Cons.prems obtain qs where "match_items its pos s = Some qs" "ps = [] # qs"
      by (auto split: if_splits)
    with Cons.IH [of pos s qs] show ?thesis by simp
  qed
qed

lemma match_items_length: "match_items p pos s = Some ps \<Longrightarrow> length (concat ps) \<le> length s"
proof -
  assume "match_items p pos s = Some ps"
  then obtain rest where "s = concat ps @ rest"
    using match_items_prefix by blast
  then have "length s = length (concat ps) + length rest"
    by (metis length_append)
  then show ?thesis by simp
qed

text \<open>
  The replacement of \<open>re.sub\<close>: literal text and references to the pieces of the match.
\<close>

datatype tpart = Grp nat | Txt string

fun expand :: "tpart list \<Rightarrow> string list \<Rightarrow> string" where
  "expand [] ps = []"
| "expand (Grp i # t) ps = (if i < length ps then ps ! i else []) @ expand t ps"
| "expand (Txt x # t) ps = x @ expand t ps"

text \<open>
  \<open>re.sub(p, t, s)\<close> scans the subject from the left. Where the pattern matches, the
  replacement is written and the scan goes on behind the match; elsewhere one character is
  copied. After a match that took no character the next character is copied.
\<close>

function re_sub_at :: "item list \<Rightarrow> tpart list \<Rightarrow> nat \<Rightarrow> string \<Rightarrow> string" where
  "re_sub_at p t pos s =
     (case match_items p pos s of
        None \<Rightarrow> (case s of [] \<Rightarrow> [] | c # cs \<Rightarrow> c # re_sub_at p t (Suc pos) cs)
      | Some ps \<Rightarrow>
          (if length (concat ps) = 0
           then expand t ps @ (case s of [] \<Rightarrow> [] | c # cs \<Rightarrow> c # re_sub_at p t (Suc pos) cs)
           else expand t ps @ re_sub_at p t (pos + length (concat ps)) (drop (length (concat ps)) s)))"
  by pat_completeness auto
termination
proof (relation "measure (\<lambda>(p, t, pos, s). length s)")
  fix p :: "item list" and t :: "tpart list" and pos :: nat and s ps
  assume "match_items p pos s = Some ps" and "length (concat ps) \<noteq> 0"
  then have "0 < length (concat ps) \<and> length (concat ps) \<le> length s"
    using match_items_length [of p pos s ps] by blast
  then have "length (drop (length (concat ps)) s) < length s"
    unfolding length_drop by linarith
  then show "((p, t, pos + length (concat ps), drop (length (concat ps)) s), (p, t, pos, s))
       \<in> measure (\<lambda>(p, t, pos, s). length s)"
    by simp
qed auto

declare re_sub_at.simps [simp del]

definition re_sub :: "item list \<Rightarrow> tpart list \<Rightarrow> string \<Rightarrow> string" where
  "re_sub p t s = re_sub_at p t 0 s"

text \<open>
  \<open>re.split(p, s)\<close> for a pattern without groups: the texts between the matches, found by
  the same scan. A match that takes no character does not cut (the one pattern that the
  program splits on takes two characters at least).
\<close>

function re_split_at :: "item list \<Rightarrow> nat \<Rightarrow> string \<Rightarrow> string list" where
  "re_split_at p pos s =
     (case (case match_items p pos s of
              None \<Rightarrow> None
            | Some ps \<Rightarrow> if length (concat ps) = 0 then None else Some (length (concat ps))) of
        Some n \<Rightarrow> [] # re_split_at p (pos + n) (drop n s)
      | None \<Rightarrow>
          (case s of
             [] \<Rightarrow> [[]]
           | c # cs \<Rightarrow> (case re_split_at p (Suc pos) cs of
                          [] \<Rightarrow> [[c]]
                        | q # qs \<Rightarrow> (c # q) # qs)))"
  by pat_completeness auto
termination
proof (relation "measure (\<lambda>(p, pos, s). length s)")
  fix p :: "item list" and pos :: nat and s n
  assume "(case match_items p pos s of None \<Rightarrow> None
           | Some ps \<Rightarrow> if length (concat ps) = 0 then None else Some (length (concat ps))) = Some n"
  then obtain ps where "match_items p pos s = Some ps" "n = length (concat ps)" "n \<noteq> 0"
    by (auto split: option.splits if_splits)
  then have "0 < n \<and> n \<le> length s"
    using match_items_length [of p pos s ps] by blast
  then have "length (drop n s) < length s"
    unfolding length_drop by linarith
  then show "((p, pos + n, drop n s), (p, pos, s)) \<in> measure (\<lambda>(p, pos, s). length s)"
    by simp
qed auto

declare re_split_at.simps [simp del]

definition re_split :: "item list \<Rightarrow> string \<Rightarrow> string list" where
  "re_split p s = re_split_at p 0 s"

section \<open>The text cleaner\<close>

text \<open>
  The module-level options that the sidebar sets: \<open>enable_ocr\<close>, \<open>tesseract_cmd_path\<close>,
  \<open>show_logs\<close>, \<open>ocr_dpi\<close> and \<open>split_words\<close>.
\<close>

record config =
  enable_ocr :: bool
  tesseract_cmd_path :: string
  show_logs :: bool
  ocr_dpi :: int
  split_words :: bool

subsection \<open>\<open>remove_page_headers\<close>\<close>

text \<open>The pattern \<^verbatim>\<open>^\s*\d+/\d+\s+\d{4}\s*$\<close>.\<close>

definition header_pat :: "item list" where
  "header_pat = [Bos, many0 Space, many1 Digit, once (Lit (CHR ''/'')), many1 Digit,
                 many1 Space, exactly 4 Digit, many0 Space, Eos]"

text \<open>The loop over the lines; the second argument is \<open>filtered_lines\<close>.\<close>

fun filter_lines :: "string list \<Rightarrow> string list \<Rightarrow> string list" where
  "filter_lines [] filtered_lines = filtered_lines"
| "filter_lines (line # lines) filtered_lines =
     (if re_match header_pat line then filter_lines lines filtered_lines
      else filter_lines lines (filtered_lines @ [line]))"

definition remove_page_headers :: "string \<Rightarrow> string" where
  "remove_page_headers text = join [LF] (filter_lines (splitlines text) [])"

subsection \<open>\<open>split_concatenated_words\<close>\<close>

text \<open>
  \<open>wordninja.split\<close> is a function of the token, or is absent when the import fails.
  The loop over the words; the third argument is \<open>new_words\<close>. (The warning that the
  program displays when the import fails is not part of the returned text.)
\<close>

type_synonym wordninja = "(string \<Rightarrow> string list) option"

fun split_loop :: "(string \<Rightarrow> string list) \<Rightarrow> string list \<Rightarrow> string list \<Rightarrow> string list" where
  "split_loop seg [] new_words = new_words"
| "split_loop seg (word # words) new_words =
     (if length word > 15 then
        (let split_word = seg word in
         if length split_word > 1 \<and> join [SP] split_word \<noteq> word
         then split_loop seg words (new_words @ [join [SP] split_word])
         else split_loop seg words (new_words @ [word]))
      else split_loop seg words (new_words @ [word]))"

definition split_concatenated_words :: "wordninja \<Rightarrow> string \<Rightarrow> string" where
  "split_concatenated_words wn text =
     (case wn of
        None \<Rightarrow> text
      | Some seg \<Rightarrow> join [SP] (split_loop seg (split_ws text) []))"

subsection \<open>\<open>clean_extracted_text\<close>\<close>

text \<open>
  The patterns \<^verbatim>\<open>(\w+)-\n(\w+)\<close>, \<^verbatim>\<open>\.([A-Z])\<close>, \<^verbatim>\<open>\n\s*\n\<close> and \<^verbatim>\<open>([a-z])([A-Z])\<close>, with their
  replacements \<^verbatim>\<open>\1\2\<close>, \<^verbatim>\<open>. \1\<close> and \<^verbatim>\<open>\1 \2\<close>.
\<close>

definition hyphen_pat :: "item list" where
  "hyphen_pat = [many1 Word, once (Lit (CHR ''-'')), once (Lit LF), many1 Word]"

definition hyphen_repl :: "tpart list" where
  "hyphen_repl = [Grp 0, Grp 3]"

definition period_pat :: "item list" where
  "period_pat = [once (Lit (CHR ''.'')), once Upper]"

definition period_repl :: "tpart list" where
  "period_repl = [Txt ''. '', Grp 1]"

definition para_pat :: "item list" where
  "para_pat = [once (Lit LF), many0 Space, once (Lit LF)]"

definition camel_pat :: "item list" where
  "camel_pat = [once Lower, once Upper]"

definition camel_repl :: "tpart list" where
  "camel_repl = [Grp 0, Txt '' '', Grp 1]"

text \<open>The body of the loop over the paragraphs, and the loop (second argument: \<open>cleaned_paragraphs\<close>).\<close>

definition clean_para :: "string \<Rightarrow> string" where
  "clean_para para = re_sub camel_pat camel_repl (strip (replace_newlines para))"

fun clean_paragraphs :: "string list \<Rightarrow> string list \<Rightarrow> string list" where
  "clean_paragraphs [] cleaned_paragraphs = cleaned_paragraphs"
| "clean_paragraphs (para # paragraphs) cleaned_paragraphs =
     clean_paragraphs paragraphs (cleaned_paragraphs @ [clean_para para])"

definition clean_extracted_text :: "config \<Rightarrow> wordninja \<Rightarrow> string \<Rightarrow> string" where
  "clean_extracted_text cfg wn text0 =
     (let text1 = remove_page_headers text0;
          text2 = re_sub hyphen_pat hyphen_repl text1;
          text3 = re_sub period_pat period_repl text2;
          paragraphs = re_split para_pat text3;
          cleaned_text = join [LF, LF] (clean_paragraphs paragraphs [])
      in if split_words cfg then split_concatenated_words wn cleaned_text else cleaned_text)"

section \<open>Extraction\<close>

text \<open>
  What the program shows (\<open>st.sidebar.info\<close>, \<open>st.warning\<close>, \<open>st.error\<close>), the files on
  disk, and the command that \<open>pytesseract\<close> is set to run make up the state. An exception
  is its message.
\<close>

datatype notice = Info string | Warning string | Error string

type_synonym bytes = "8 word list"
type_synonym exn = string

record state =
  files :: "string \<rightharpoonup> bytes"
  tesseract_cmd :: string
  notices :: "notice list"

text \<open>
  The libraries and the operating system, as functions of what they read. A page of
  \<open>pdfplumber\<close> yields its text, nothing, or a fault; rasterization and recognition yield a
  result or a fault. \<open>NamedTemporaryFile\<close> chooses \<open>temp_name\<close> or fails with \<open>create_fault\<close>;
  \<open>tmp_file.write\<close> may fail with \<open>write_fault\<close> after some of the bytes have reached the
  file. \<open>open_missing\<close> and \<open>convert_missing\<close> are the exceptions that \<open>pdfplumber.open\<close> and
  \<open>convert_from_path\<close> raise for a path at which there is no file.
\<close>

datatype page_read = PageText "string option" | PageFault exn

record 'img world =
  temp_name :: string
  create_fault :: "exn option"
  write_fault :: "(exn \<times> nat) option"
  open_missing :: "string \<Rightarrow> exn"
  pdfplumber_open :: "bytes \<Rightarrow> exn + page_read list"
  temp_dir :: "exn + string"
  convert_missing :: "string \<Rightarrow> exn"
  convert_from_path :: "bytes \<Rightarrow> int \<Rightarrow> exn + 'img list"
  image_to_string :: "string \<Rightarrow> 'img \<Rightarrow> exn + string"

text \<open>\<open>str(n)\<close> for a page number.\<close>

fun str_nat :: "nat \<Rightarrow> string" where
  "str_nat n = (if n < 10 then [char_of (48 + n)]
                else str_nat (n div 10) @ [char_of (48 + n mod 10)])"

declare str_nat.simps [simp del]

definition log_info :: "config \<Rightarrow> string \<Rightarrow> state \<Rightarrow> state" where
  "log_info cfg message st =
     (if show_logs cfg then st\<lparr>notices := notices st @ [Info message]\<rparr> else st)"

definition st_error :: "string \<Rightarrow> state \<Rightarrow> state" where
  "st_error message st = st\<lparr>notices := notices st @ [Error message]\<rparr>"

subsection \<open>\<open>extract_text_pdfplumber\<close>\<close>

text \<open>The block that line 131 appends: \<^verbatim>\<open>f"\n\n# Page {page_num}\n\n{page_text}"\<close>.\<close>

definition plumber_block :: "nat \<Rightarrow> string \<Rightarrow> string" where
  "plumber_block page_num page_text =
     [LF, LF] @ ''# Page '' @ str_nat page_num @ [LF, LF] @ page_text"

text \<open>
  The loop over \<open>enumerate(pdf.pages, start=1)\<close>: the text so far, and the fault that
  ended the loop, if any.
\<close>

fun plumber_loop :: "page_read list \<Rightarrow> nat \<Rightarrow> string \<Rightarrow> string \<times> exn option" where
  "plumber_loop [] page_num text = (text, None)"
| "plumber_loop (PageFault e # pages) page_num text = (text, Some e)"
| "plumber_loop (PageText page_text # pages) page_num text =
     (case page_text of
        None \<Rightarrow> plumber_loop pages (Suc page_num) text
      | Some t \<Rightarrow>
          if t \<noteq> [] then plumber_loop pages (Suc page_num) (text @ plumber_block page_num t)
          else plumber_loop pages (Suc page_num) text)"

definition extract_text_pdfplumber :: "'img world \<Rightarrow> state \<Rightarrow> string \<Rightarrow> state \<times> string" where
  "extract_text_pdfplumber w st pdf_file =
     (case files st pdf_file of
        None \<Rightarrow>
          (st_error (''Error extracting text with pdfplumber: '' @ open_missing w pdf_file) st, [])
      | Some content \<Rightarrow>
          (case pdfplumber_open w content of
             Inl e \<Rightarrow> (st_error (''Error extracting text with pdfplumber: '' @ e) st, [])
           | Inr pages \<Rightarrow>
               (case plumber_loop pages 1 [] of
                  (text, None) \<Rightarrow> (st, text)
                | (text, Some e) \<Rightarrow>
                    (st_error (''Error extracting text with pdfplumber: '' @ e) st, text))))"

subsection \<open>\<open>extract_text_ocr\<close>\<close>

text \<open>The block that line 167 appends: \<^verbatim>\<open>f"\n\n# Page {i + 1}\n\n{page_text}"\<close>.\<close>

definition ocr_block :: "nat \<Rightarrow> string \<Rightarrow> string" where
  "ocr_block i page_text = [LF, LF] @ ''# Page '' @ str_nat (i + 1) @ [LF, LF] @ page_text"

text \<open>The loop over \<open>enumerate(images)\<close>.\<close>

fun ocr_loop :: "config \<Rightarrow> 'img world \<Rightarrow> 'img list \<Rightarrow> nat \<Rightarrow> state \<Rightarrow> string \<Rightarrow> state \<times> string" where
  "ocr_loop cfg w [] i st text = (st, text)"
| "ocr_loop cfg w (img # images) i st text =
     (let st1 = log_info cfg (''Performing OCR on page '' @ str_nat (i + 1) @ ''...'') st in
      case image_to_string w (tesseract_cmd st1) img of
        Inl ocr_error \<Rightarrow>
          ocr_loop cfg w images (Suc i)
            (st_error (''OCR failed on page '' @ str_nat (i + 1) @ '': '' @ ocr_error) st1) text
      | Inr page_text \<Rightarrow> ocr_loop cfg w images (Suc i) st1 (text @ ocr_block i page_text))"

definition extract_text_ocr :: "config \<Rightarrow> 'img world \<Rightarrow> state \<Rightarrow> string \<Rightarrow> state \<times> (exn + string)" where
  "extract_text_ocr cfg w st pdf_file =
     (let st1 = (if tesseract_cmd_path cfg \<noteq> []
                 then st\<lparr>tesseract_cmd := tesseract_cmd_path cfg\<rparr> else st) in
      case temp_dir w of
        Inl e \<Rightarrow> (st1, Inl e)
      | Inr dir \<Rightarrow>
          (case (case files st1 pdf_file of
                   None \<Rightarrow> Inl (convert_missing w pdf_file)
                 | Some content \<Rightarrow> convert_from_path w content (ocr_dpi cfg)) of
             Inl e \<Rightarrow> (st_error (''Error converting PDF to images: '' @ e) st1, Inr [])
           | Inr images \<Rightarrow>
               (case ocr_loop cfg w images 0 st1 [] of (st2, text) \<Rightarrow> (st2, Inr text))))"

section \<open>The orchestrator\<close>

text \<open>
  \<open>process_pdf\<close>: the named temporary file is created (\<open>delete=False\<close>) and the bytes are
  written to it, both before \<open>try\<close>: a fault of the creation leaves no file, a fault of
  the writing leaves the file with what was written, and either goes to the caller at
  once. Then the extractor that the mode selects runs inside \<open>try\<close>; the \<open>finally\<close> branch
  unlinks the file if it exists; an exception of the extractor goes on to the caller
  after that.
\<close>

definition run_extractor :: "config \<Rightarrow> 'img world \<Rightarrow> state \<Rightarrow> string \<Rightarrow> state \<times> (exn + string)" where
  "run_extractor cfg w st tmp_filename =
     (if enable_ocr cfg
      then extract_text_ocr cfg w (log_info cfg ''Using OCR for text extraction.'' st) tmp_filename
      else (case extract_text_pdfplumber w
                   (log_info cfg ''Using pdfplumber for text extraction.'' st) tmp_filename of
              (st1, text) \<Rightarrow> (st1, Inr text)))"

definition unlink_if_exists :: "string \<Rightarrow> state \<Rightarrow> state" where
  "unlink_if_exists name st =
     (if name \<in> dom (files st) then st\<lparr>files := (files st)(name := None)\<rparr> else st)"

definition process_pdf :: "config \<Rightarrow> 'img world \<Rightarrow> state \<Rightarrow> bytes \<Rightarrow> state \<times> (exn + string option)" where
  "process_pdf cfg w st file_bytes =
     (case create_fault w of
        Some e \<Rightarrow> (st, Inl e)
      | None \<Rightarrow>
          (let tmp_filename = temp_name w in
           case write_fault w of
             Some (e, n) \<Rightarrow>
               (st\<lparr>files := (files st)(tmp_filename \<mapsto> take n file_bytes)\<rparr>, Inl e)
           | None \<Rightarrow>
               (let st1 = st\<lparr>files := (files st)(tmp_filename \<mapsto> file_bytes)\<rparr>
                in case run_extractor cfg w st1 tmp_filename of
                     (st2, Inl e) \<Rightarrow> (unlink_if_exists tmp_filename st2, Inl e)
                   | (st2, Inr extracted_text) \<Rightarrow>
                       (unlink_if_exists tmp_filename st2,
                        Inr (if strip extracted_text \<noteq> [] then Some extracted_text
                             else None)))))"

subsection \<open>A sample configuration, world and state\<close>

definition sample_cfg :: config where
  "sample_cfg = \<lparr>enable_ocr = False, tesseract_cmd_path = [], show_logs = True,
                  ocr_dpi = 300, split_words = True\<rparr>"

definition sample_world :: "unit world" where
  "sample_world = \<lparr>temp_name = ''tmp0.pdf'',
                    create_fault = None,
                    write_fault = None,
                    open_missing = (\<lambda>path. ''No such file or directory: '' @ path),
                    pdfplumber_open = (\<lambda>content. Inr [PageText (Some ''Hello'')]),
                    temp_dir = Inr ''tmpdir0'',
                    convert_missing = (\<lambda>path. ''Unable to get page count.''),
                    convert_from_path = (\<lambda>content dpi. Inr [(), ()]),
                    image_to_string = (\<lambda>cmd img. Inr ''scan'')\<rparr>"

definition sample_state :: state where
  "sample_state = \<lparr>files = Map.empty, tesseract_cmd = ''tesseract'', notices = []\<rparr>"

text \<open>The same world with a disk that is full when the bytes are written.\<close>

definition full_disk_world :: "unit world" where
  "full_disk_world = sample_world\<lparr>write_fault := Some (''No space left on device'', 0)\<rparr>"

text \<open>The same world with no directory for temporary files.\<close>

definition no_temp_dir_world :: "unit world" where
  "no_temp_dir_world = sample_world\<lparr>temp_dir := Inl ''No usable temporary directory''\<rparr>"

section \<open>Properties of the word-splitting pass\<close>

lemma split_loop_acc:
  "split_loop seg words acc =
   acc @ map (\<lambda>word. if 15 < length word \<and> 1 < length (seg word) \<and> join [SP] (seg word) \<noteq> word
                       then join [SP] (seg word) else word) words"
  by (induction words arbitrary: acc) (simp_all add: Let_def)

text \<open>
  C6. In the word-splitting pass every token of at most 15 characters is kept as it is;
  a token is replaced only if it is longer than 15 characters and its segmentation has
  two pieces or more whose join with spaces differs from the token, and then it is
  replaced by that join; every other token is kept verbatim. The result is the join of
  the tokens with single spaces.
\<close>

theorem split_concatenated_words_tokens:
  "(let words = split_ws text; new_words = split_loop seg words [] in
      split_concatenated_words (Some seg) text = join [SP] new_words \<and>
      length new_words = length words \<and>
      (\<forall>i < length words.
         (length (words ! i) \<le> 15 \<longrightarrow> new_words ! i = words ! i) \<and>
         (new_words ! i \<noteq> words ! i \<longrightarrow>
            15 < length (words ! i) \<and> 2 \<le> length (seg (words ! i)) \<and>
            join [SP] (seg (words ! i)) \<noteq> words ! i \<and>
            new_words ! i = join [SP] (seg (words ! i))) \<and>
         (15 < length (words ! i) \<and> 2 \<le> length (seg (words ! i)) \<and>
            join [SP] (seg (words ! i)) \<noteq> words ! i \<longrightarrow>
            new_words ! i = join [SP] (seg (words ! i)))))"
  by (simp add: Let_def split_concatenated_words_def split_loop_acc)

lemma split_ws_example:
  "split_ws ''see thisisaverylongtoken'' = [''see'', ''thisisaverylongtoken'']"
  by code_simp

theorem split_concatenated_words_tokens_witness:
  "split_loop (\<lambda>w. [take 4 w, drop 4 w]) (split_ws ''see thisisaverylongtoken'') [] ! 0 = ''see'' \<and>
   split_loop (\<lambda>w. [take 4 w, drop 4 w]) (split_ws ''see thisisaverylongtoken'') [] ! 1
     = ''this isaverylongtoken''"
  using split_concatenated_words_tokens [of "''see thisisaverylongtoken''" "\<lambda>w. [take 4 w, drop 4 w]"]
  by (simp add: Let_def split_ws_example)

section \<open>Paragraph breaks and the word-splitting pass\<close>

lemma two_paragraphs_cleaned:
  "join [LF, LF] (clean_paragraphs (re_split para_pat (re_sub period_pat period_repl
     (re_sub hyphen_pat hyphen_repl (remove_page_headers [CHR ''a'', LF, LF, CHR ''b''])))) [])
   = [CHR ''a'', LF, LF, CHR ''b'']"
  by code_simp

lemma two_paragraphs_split: "split_concatenated_words (Some seg) [CHR ''a'', LF, LF, CHR ''b''] = ''a b''"
  by code_simp

text \<open>
  C1. With the word-splitting pass enabled and \<open>wordninja\<close> present, the cleaner does not
  keep the paragraph boundary of the two-paragraph text \<open>a\n\nb\<close>: the result is \<open>a b\<close>,
  whatever the segmentation function is. With the pass disabled the boundary is kept.
\<close>

theorem clean_extracted_text_paragraph_break:
  "clean_extracted_text (cfg\<lparr>split_words := True\<rparr>) (Some seg) [CHR ''a'', LF, LF, CHR ''b''] = ''a b'' \<and>
   clean_extracted_text (cfg\<lparr>split_words := False\<rparr>) wn [CHR ''a'', LF, LF, CHR ''b'']
     = [CHR ''a'', LF, LF, CHR ''b'']"
  unfolding clean_extracted_text_def Let_def two_paragraphs_cleaned
  by (simp add: two_paragraphs_split)

section \<open>Properties of extraction and of the orchestrator\<close>

lemma files_unlink_if_exists: "files (unlink_if_exists name st) = (files st)(name := None)"
  by (auto simp: unlink_if_exists_def fun_eq_iff domIff)

lemma files_log_info [simp]: "files (log_info cfg m st) = files st"
  by (simp add: log_info_def)

lemma files_st_error [simp]: "files (st_error m st) = files st"
  by (simp add: st_error_def)

lemma files_ocr_loop: "files (fst (ocr_loop cfg w images i st acc)) = files st"
  by (induction images arbitrary: i st acc) (simp_all add: Let_def split: sum.splits)

lemma files_extract_text_ocr: "files (fst (extract_text_ocr cfg w st f)) = files st"
  by (cases "tesseract_cmd_path cfg = []")
     (simp_all add: extract_text_ocr_def Let_def split_beta files_ocr_loop
        split: sum.splits option.splits)

lemma files_extract_text_pdfplumber: "files (fst (extract_text_pdfplumber w st f)) = files st"
  by (simp add: extract_text_pdfplumber_def split: sum.splits option.splits prod.splits)

lemma files_run_extractor: "files (fst (run_extractor cfg w st f)) = files st"
proof (cases "enable_ocr cfg")
  case True
  then show ?thesis by (simp add: run_extractor_def files_extract_text_ocr)
next
  case False
  let ?st = "log_info cfg ''Using pdfplumber for text extraction.'' st"
  obtain st1 t where e: "extract_text_pdfplumber w ?st f = (st1, t)"
    by (cases "extract_text_pdfplumber w ?st f")
  with files_extract_text_pdfplumber [of w ?st f] have "files st1 = files st" by simp
  with False e show ?thesis by (simp add: run_extractor_def)
qed

lemma files_process_pdf:
  "create_fault w = None \<Longrightarrow> write_fault w = None \<Longrightarrow>
   files (fst (process_pdf cfg w st file_bytes)) = (files st)(temp_name w := None)"
proof -
  assume ok: "create_fault w = None" "write_fault w = None"
  let ?st1 = "st\<lparr>files := (files st)(temp_name w \<mapsto> file_bytes)\<rparr>"
  obtain st2 r where r: "run_extractor cfg w ?st1 (temp_name w) = (st2, r)"
    by (cases "run_extractor cfg w ?st1 (temp_name w)")
  have "files st2 = files ?st1"
    using files_run_extractor [of cfg w ?st1 "temp_name w"] r by simp
  then show ?thesis
    using r ok by (cases r) (simp_all add: process_pdf_def Let_def files_unlink_if_exists)
qed

lemma process_pdf_raises:
  "create_fault w = None \<Longrightarrow> write_fault w = None \<Longrightarrow> enable_ocr cfg \<Longrightarrow>
   temp_dir w = Inl e \<Longrightarrow> snd (process_pdf cfg w st file_bytes) = Inl e"
  by (simp add: process_pdf_def run_extractor_def extract_text_ocr_def Let_def)

text \<open>
  C8, as the claim states it, fails: when the disk is full while the bytes are written,
  \<open>process_pdf\<close> raises and the temporary file is still on disk.
\<close>

theorem process_pdf_temp_file_counterexample:
  "snd (process_pdf sample_cfg full_disk_world sample_state [1, 2, 3])
     = Inl ''No space left on device'' \<and>
   temp_name full_disk_world
     \<in> dom (files (fst (process_pdf sample_cfg full_disk_world sample_state [1, 2, 3])))"
  by (simp add: process_pdf_def full_disk_world_def sample_world_def)

text \<open>
  C8, amended. Once the temporary file has been created and written, it is not on disk
  when \<open>process_pdf\<close> is left, whatever the extractor does (it returns a text, returns an
  empty text, or raises, as it does when the OCR extractor gets no temporary directory),
  and no other file has changed. When the file cannot be created, \<open>process_pdf\<close> raises
  and changes nothing.
\<close>

theorem process_pdf_removes_temp_file:
  "(create_fault w = None \<and> write_fault w = None \<longrightarrow>
      temp_name w \<notin> dom (files (fst (process_pdf cfg w st file_bytes))) \<and>
      files (fst (process_pdf cfg w st file_bytes)) = (files st)(temp_name w := None)) \<and>
   (create_fault w = None \<and> write_fault w = None \<and> enable_ocr cfg \<and> temp_dir w = Inl e \<longrightarrow>
      snd (process_pdf cfg w st file_bytes) = Inl e) \<and>
   (create_fault w = Some e' \<longrightarrow> process_pdf cfg w st file_bytes = (st, Inl e'))"
  using files_process_pdf [of w cfg st file_bytes] process_pdf_raises [of w cfg e st file_bytes]
  by (simp add: process_pdf_def)

theorem process_pdf_removes_temp_file_witness:
  "temp_name sample_world
     \<notin> dom (files (fst (process_pdf sample_cfg sample_world sample_state [1, 2, 3]))) \<and>
   snd (process_pdf (sample_cfg\<lparr>enable_ocr := True\<rparr>) no_temp_dir_world sample_state [1, 2, 3])
     = Inl ''No usable temporary directory'' \<and>
   temp_name no_temp_dir_world
     \<notin> dom (files (fst (process_pdf (sample_cfg\<lparr>enable_ocr := True\<rparr>) no_temp_dir_world
                           sample_state [1, 2, 3])))"
  using process_pdf_removes_temp_file [where w = sample_world and cfg = sample_cfg
      and st = sample_state and file_bytes = "[1, 2, 3]"]
    process_pdf_removes_temp_file [where w = no_temp_dir_world
      and cfg = "sample_cfg\<lparr>enable_ocr := True\<rparr>"
      and st = sample_state and file_bytes = "[1, 2, 3]" and e = "''No usable temporary directory''"]
  by (simp add: sample_world_def no_temp_dir_world_def)

lemma strip_empty_iff: "strip s = [] \<longleftrightarrow> list_all is_space s"
proof
  assume "strip s = []"
  then have all: "\<forall>c \<in> set (dropWhile is_space s). is_space c"
    by (simp add: strip_def dropWhile_eq_Nil_conv)
  have "dropWhile is_space s = []"
  proof (rule ccontr)
    assume ne: "dropWhile is_space s \<noteq> []"
    then have "\<not> is_space (hd (dropWhile is_space s))" by (rule hd_dropWhile)
    moreover have "hd (dropWhile is_space s) \<in> set (dropWhile is_space s)"
      using ne by (rule hd_in_set)
    ultimately show False using all by blast
  qed
  then show "list_all is_space s"
    by (simp add: dropWhile_eq_Nil_conv list_all_iff)
next
  assume "list_all is_space s"
  then have d: "dropWhile is_space s = []"
    by (simp add: dropWhile_eq_Nil_conv list_all_iff)
  show "strip s = []" unfolding strip_def d by simp
qed

text \<open>
  C2. \<open>process_pdf\<close> returns \<open>None\<close> exactly when the temporary file was written and the
  extractor returned a text that is empty or all whitespace; the test is made on the
  text as extracted. In that case the outcome is a returned value, not an exception, and
  a returned text is never empty.
\<close>

theorem process_pdf_none_iff:
  "(snd (process_pdf cfg w st file_bytes) = Inr None \<longleftrightarrow>
      create_fault w = None \<and> write_fault w = None \<and>
      (\<exists>st2 extracted_text.
          run_extractor cfg w (st\<lparr>files := (files st)(temp_name w \<mapsto> file_bytes)\<rparr>) (temp_name w)
            = (st2, Inr extracted_text) \<and>
          list_all is_space extracted_text)) \<and>
   snd (process_pdf cfg w st file_bytes) \<noteq> Inr (Some [])"
proof (cases "create_fault w")
  case (Some e)
  then show ?thesis by (simp add: process_pdf_def)
next
  case None
  show ?thesis
  proof (cases "write_fault w")
    case (Some en)
    with None show ?thesis by (cases en) (simp add: process_pdf_def)
  next
    case wn: None
    let ?st1 = "st\<lparr>files := (files st)(temp_name w \<mapsto> file_bytes)\<rparr>"
    obtain st2 r where r: "run_extractor cfg w ?st1 (temp_name w) = (st2, r)"
      by (cases "run_extractor cfg w ?st1 (temp_name w)")
    show ?thesis
    proof (cases r)
      case (Inl e)
      with r None wn show ?thesis by (simp add: process_pdf_def Let_def)
    next
      case (Inr t)
      have "strip [] = []" by (simp add: strip_def)
      with r Inr None wn show ?thesis
        by (auto simp: process_pdf_def Let_def strip_empty_iff)
    qed
  qed
qed

lemma run_extractor_ignores_dpi:
  "\<not> enable_ocr cfg \<Longrightarrow>
   run_extractor (cfg\<lparr>ocr_dpi := dpi, tesseract_cmd_path := path\<rparr>) w st f = run_extractor cfg w st f"
  by (simp add: run_extractor_def log_info_def)

text \<open>
  C10. With OCR disabled, \<open>process_pdf\<close> does not depend on the DPI setting nor on the
  path of the recognition engine: the returned value and the final state are the same.
\<close>

theorem process_pdf_ignores_dpi:
  "\<not> enable_ocr cfg \<Longrightarrow>
   process_pdf (cfg\<lparr>ocr_dpi := dpi, tesseract_cmd_path := path\<rparr>) w st file_bytes
     = process_pdf cfg w st file_bytes"
  by (simp add: process_pdf_def Let_def run_extractor_ignores_dpi split: option.splits)

theorem process_pdf_ignores_dpi_witness:
  "process_pdf (sample_cfg\<lparr>ocr_dpi := 600, tesseract_cmd_path := ''/opt/tesseract''\<rparr>)
     sample_world sample_state [1, 2, 3]
   = process_pdf sample_cfg sample_world sample_state [1, 2, 3]"
  using process_pdf_ignores_dpi [where cfg = sample_cfg and dpi = 600 and path = "''/opt/tesseract''"
      and w = sample_world and st = sample_state and file_bytes = "[1, 2, 3]"]
  by (simp add: sample_cfg_def)

section \<open>Page blocks\<close>

text \<open>
  The pages for which the digital extractor appends a block, each with its page number:
  the pages before the first fault whose text is present and not empty.
\<close>

fun page_blocks :: "page_read list \<Rightarrow> nat \<Rightarrow> (nat \<times> string) list" where
  "page_blocks [] n = []"
| "page_blocks (PageFault e # pages) n = []"
| "page_blocks (PageText None # pages) n = page_blocks pages (Suc n)"
| "page_blocks (PageText (Some t) # pages) n =
     (if t \<noteq> [] then (n, t) # page_blocks pages (Suc n) else page_blocks pages (Suc n))"

text \<open>
  The pages for which the OCR extractor appends a block, each with its page number: the
  images that are recognized without a fault. \<open>recognize\<close> is \<open>image_to_string\<close> with the
  command in force.
\<close>

fun ocr_blocks :: "('img \<Rightarrow> exn + string) \<Rightarrow> 'img list \<Rightarrow> nat \<Rightarrow> (nat \<times> string) list" where
  "ocr_blocks recognize [] i = []"
| "ocr_blocks recognize (img # images) i =
     (case recognize img of
        Inl e \<Rightarrow> ocr_blocks recognize images (Suc i)
      | Inr t \<Rightarrow> (i + 1, t) # ocr_blocks recognize images (Suc i))"

text \<open>The heading lines of an extracted text: its lines that begin with \<open># Page\<close>.\<close>

definition page_headings :: "string \<Rightarrow> string list" where
  "page_headings extracted = filter (\<lambda>line. take 7 line = ''# Page '') (splitlines extracted)"

definition three_page_world :: "unit world" where
  "three_page_world = sample_world\<lparr>pdfplumber_open :=
      (\<lambda>content. Inr [PageText (Some ''A''), PageText None, PageText (Some ''B'')])\<rparr>"

definition stored_state :: state where
  "stored_state = sample_state\<lparr>files := [''tmp0.pdf'' \<mapsto> [1, 2, 3]]\<rparr>"

lemma plumber_loop_blocks:
  "fst (plumber_loop pages n acc) = acc @ concat (map (\<lambda>(k, t). plumber_block k t) (page_blocks pages n))"
  by (induction pages n arbitrary: acc rule: page_blocks.induct) simp_all

lemma page_blocks_bounds:
  "(k, t) \<in> set (page_blocks pages n) \<Longrightarrow> n \<le> k \<and> k < n + length pages"
  by (induction pages n rule: page_blocks.induct) (fastforce split: if_splits)+

lemma page_blocks_increasing: "sorted_wrt (<) (map fst (page_blocks pages n))"
  by (induction pages n rule: page_blocks.induct) (auto dest: page_blocks_bounds)

lemma page_blocks_length: "length (page_blocks pages n) \<le> length pages"
  by (induction pages n rule: page_blocks.induct) auto

lemma page_blocks_all:
  "\<forall>p \<in> set pages. \<exists>t. t \<noteq> [] \<and> p = PageText (Some t) \<Longrightarrow>
   map fst (page_blocks pages n) = [n ..< n + length pages]"
  by (induction pages n rule: page_blocks.induct) (auto simp: upt_rec)

lemma tesseract_cmd_log_info [simp]: "tesseract_cmd (log_info cfg m st) = tesseract_cmd st"
  by (simp add: log_info_def)

lemma tesseract_cmd_st_error [simp]: "tesseract_cmd (st_error m st) = tesseract_cmd st"
  by (simp add: st_error_def)

lemma ocr_loop_blocks:
  "snd (ocr_loop cfg w images i st acc) =
   acc @ concat (map (\<lambda>(k, t). plumber_block k t)
                   (ocr_blocks (image_to_string w (tesseract_cmd st)) images i))"
  by (induction images arbitrary: i st acc)
     (simp_all add: Let_def ocr_block_def plumber_block_def split: sum.splits)

lemma ocr_blocks_bounds:
  "(k, t) \<in> set (ocr_blocks r images i) \<Longrightarrow> i < k \<and> k \<le> i + length images"
  by (induction images arbitrary: i) (fastforce split: sum.splits)+

lemma ocr_blocks_increasing: "sorted_wrt (<) (map fst (ocr_blocks r images i))"
  by (induction images arbitrary: i) (auto split: sum.splits dest: ocr_blocks_bounds)

lemma ocr_blocks_length: "length (ocr_blocks r images i) \<le> length images"
  by (induction images arbitrary: i) (auto split: sum.splits intro: le_SucI)

lemma page_blocks_nth:
  "(k, t) \<in> set (page_blocks pages n) \<Longrightarrow> pages ! (k - n) = PageText (Some t)"
proof (induction pages n rule: page_blocks.induct)
  case (3 pages n)
  then have "(k, t) \<in> set (page_blocks pages (Suc n))" by simp
  with 3 page_blocks_bounds [of k t pages "Suc n"] show ?case
    by (simp add: Suc_diff_le)
next
  case (4 t' pages n)
  show ?case
  proof (cases "(k, t) = (n, t')")
    case True
    then show ?thesis by simp
  next
    case False
    with 4 have in_rest: "(k, t) \<in> set (page_blocks pages (Suc n))"
      by (auto split: if_splits)
    with 4 have "pages ! (k - Suc n) = PageText (Some t)"
      by (auto split: if_splits)
    with page_blocks_bounds [OF in_rest] show ?thesis
      by (simp add: Suc_diff_le)
  qed
qed simp_all

lemma extract_text_pdfplumber_blocks:
  "files st f = Some content \<Longrightarrow> pdfplumber_open w content = Inr pages \<Longrightarrow>
   snd (extract_text_pdfplumber w st f)
     = concat (map (\<lambda>(k, t). plumber_block k t) (page_blocks pages 1))"
proof -
  assume a: "files st f = Some content" "pdfplumber_open w content = Inr pages"
  obtain extracted fault where l: "plumber_loop pages 1 [] = (extracted, fault)"
    by (cases "plumber_loop pages 1 []")
  with plumber_loop_blocks [of pages 1 "[]"]
  have "extracted = concat (map (\<lambda>(k, t). plumber_block k t) (page_blocks pages 1))"
    by simp
  with a l show ?thesis
    by (cases fault) (simp_all add: extract_text_pdfplumber_def)
qed

lemma extract_text_ocr_blocks:
  "temp_dir w = Inr dir \<Longrightarrow> files st f = Some content \<Longrightarrow>
   convert_from_path w content (ocr_dpi cfg) = Inr images \<Longrightarrow>
   snd (extract_text_ocr cfg w st f)
     = Inr (concat (map (\<lambda>(k, t). plumber_block k t)
         (ocr_blocks (image_to_string w (if tesseract_cmd_path cfg \<noteq> [] then tesseract_cmd_path cfg
                                          else tesseract_cmd st)) images 0)))"
  by (cases "tesseract_cmd_path cfg = []")
     (simp_all add: extract_text_ocr_def Let_def split_beta ocr_loop_blocks)

lemma three_pages_headings:
  "page_headings (snd (extract_text_pdfplumber three_page_world stored_state ''tmp0.pdf''))
   = [''# Page 1'', ''# Page 3'']"
  by code_simp

lemma three_pages_count:
  "(case pdfplumber_open three_page_world [1, 2, 3] of Inl e \<Rightarrow> 0 | Inr pages \<Rightarrow> length pages) = 3"
  by code_simp

text \<open>
  C4, as the claim states it, fails: of a PDF of three pages whose second page has no
  text the digital extractor makes two blocks, headed \<open>Page 1\<close> and \<open>Page 3\<close>.
\<close>

theorem extraction_page_count_counterexample:
  "(case pdfplumber_open three_page_world [1, 2, 3] of Inl e \<Rightarrow> 0 | Inr pages \<Rightarrow> length pages) = 3 \<and>
   files stored_state ''tmp0.pdf'' = Some [1, 2, 3] \<and>
   page_headings (snd (extract_text_pdfplumber three_page_world stored_state ''tmp0.pdf''))
     = [''# Page 1'', ''# Page 3''] \<and>
   length (page_headings (snd (extract_text_pdfplumber three_page_world stored_state ''tmp0.pdf''))) = 2"
proof -
  have "files stored_state ''tmp0.pdf'' = Some [1, 2, 3]"
    by (simp add: stored_state_def)
  then show ?thesis
    unfolding three_pages_headings using three_pages_count by simp
qed

lemma page_blocks_member:
  "(k, t) \<in> set (page_blocks pages n) \<longleftrightarrow>
     n \<le> k \<and> k < n + length pages \<and> pages ! (k - n) = PageText (Some t) \<and> t \<noteq> [] \<and>
     (\<forall>j < k - n. \<forall>e. pages ! j \<noteq> PageFault e)"
proof (induction pages n arbitrary: k rule: page_blocks.induct)
  case (1 n)
  then show ?case by auto
next
  case (2 e pages n)
  show ?case
  proof (cases "k - n")
    case 0
    then show ?thesis by simp
  next
    case (Suc m)
    then have "\<not> (\<forall>j < k - n. \<forall>e'. (PageFault e # pages) ! j \<noteq> PageFault e')"
      by (auto intro!: exI [of _ 0])
    then show ?thesis by simp
  qed
next
  case (3 pages n)
  show ?case
  proof (cases "k \<le> n")
    case True
    then show ?thesis using page_blocks_bounds [of k t pages "Suc n"] by auto
  next
    case False
    then obtain m where m: "k - n = Suc m" "k - Suc n = m"
      by (metis Suc_diff_Suc not_le)
    with False 3 [of k] show ?thesis by (auto simp: All_less_Suc2)
  qed
next
  case (4 t' pages n)
  show ?case
  proof (cases "k \<le> n")
    case True
    then show ?thesis using page_blocks_bounds [of k t pages "Suc n"] by auto
  next
    case False
    then obtain m where m: "k - n = Suc m" "k - Suc n = m"
      by (metis Suc_diff_Suc not_le)
    with False 4 [of k] show ?thesis by (auto simp: All_less_Suc2)
  qed
qed

lemma page_blocks_full:
  "length (page_blocks pages n) = length pages \<longleftrightarrow>
   (\<forall>p \<in> set pages. \<exists>t. t \<noteq> [] \<and> p = PageText (Some t))"
proof (induction pages n rule: page_blocks.induct)
  case (3 pages n)
  then show ?case using page_blocks_length [of pages "Suc n"] by auto
next
  case (4 t' pages n)
  then show ?case using page_blocks_length [of pages "Suc n"] by auto
qed simp_all

lemma ocr_blocks_member:
  "(k, t) \<in> set (ocr_blocks r images i) \<longleftrightarrow>
     i < k \<and> k \<le> i + length images \<and> r (images ! (k - Suc i)) = Inr t"
proof (induction images arbitrary: i k)
  case Nil
  then show ?case by auto
next
  case (Cons img images)
  show ?case
  proof (cases "k \<le> Suc i")
    case True
    then show ?thesis
      using ocr_blocks_bounds [of k t r images "Suc i"] by (auto split: sum.splits)
  next
    case False
    then obtain m where m: "k - Suc i = Suc m" "k - Suc (Suc i) = m"
      by (metis Suc_diff_Suc not_le)
    with False Cons [of k "Suc i"] show ?thesis by (auto split: sum.splits)
  qed
qed

lemma ocr_blocks_as_page_blocks:
  "map r images = map Inr ts \<Longrightarrow> list_all (\<lambda>t. t \<noteq> []) ts \<Longrightarrow>
   ocr_blocks r images i = page_blocks (map (\<lambda>t. PageText (Some t)) ts) (Suc i)"
proof (induction images arbitrary: ts i)
  case Nil
  then show ?case by simp
next
  case (Cons img images)
  then obtain t ts' where ts: "ts = t # ts'" "r img = Inr t" "map r images = map Inr ts'"
    by (cases ts) auto
  with Cons.prems(2) have "t \<noteq> []" "list_all (\<lambda>t. t \<noteq> []) ts'" by simp_all
  with Cons.IH [OF ts(3), of "Suc i"] ts show ?case by simp
qed

text \<open>
  C4, amended. The text that the digital extractor returns is the sequence of the blocks
  of exactly those pages that yield a text that is not empty and have no fault before
  them; each block carries the 1-based position of its page and the text of that page,
  so the page numbers are strictly increasing; there are at most as many blocks as
  pages, and there are as many blocks as pages exactly when every page yields a text
  that is not empty, the blocks then being numbered \<open>1, 2, \<dots>\<close>. The text that the OCR
  extractor returns is the sequence of the blocks of exactly those pages that are
  recognized without a fault, each with the 1-based position of its page and the
  recognized text, again with strictly increasing page numbers.
\<close>

theorem extraction_page_blocks:
  "(files st f = Some content \<and> pdfplumber_open w content = Inr pages \<longrightarrow>
      snd (extract_text_pdfplumber w st f)
        = concat (map (\<lambda>(k, t). plumber_block k t) (page_blocks pages 1))) \<and>
   sorted_wrt (<) (map fst (page_blocks pages n)) \<and>
   (\<forall>k t. (k, t) \<in> set (page_blocks pages n) \<longleftrightarrow>
      n \<le> k \<and> k < n + length pages \<and> pages ! (k - n) = PageText (Some t) \<and> t \<noteq> [] \<and>
      (\<forall>j < k - n. \<forall>e. pages ! j \<noteq> PageFault e)) \<and>
   length (page_blocks pages n) \<le> length pages \<and>
   (length (page_blocks pages n) = length pages \<longleftrightarrow>
      (\<forall>p \<in> set pages. \<exists>t. t \<noteq> [] \<and> p = PageText (Some t))) \<and>
   ((\<forall>p \<in> set pages. \<exists>t. t \<noteq> [] \<and> p = PageText (Some t)) \<longrightarrow>
      map fst (page_blocks pages n) = [n ..< n + length pages]) \<and>
   (temp_dir w = Inr dir \<and> files st f = Some content \<and>
    convert_from_path w content (ocr_dpi cfg) = Inr images \<longrightarrow>
      snd (extract_text_ocr cfg w st f)
        = Inr (concat (map (\<lambda>(k, t). plumber_block k t)
            (ocr_blocks (image_to_string w (if tesseract_cmd_path cfg \<noteq> [] then tesseract_cmd_path cfg
                                             else tesseract_cmd st)) images 0)))) \<and>
   sorted_wrt (<) (map fst (ocr_blocks recognize images i)) \<and>
   (\<forall>k t. (k, t) \<in> set (ocr_blocks recognize images i) \<longleftrightarrow>
      i < k \<and> k \<le> i + length images \<and> recognize (images ! (k - Suc i)) = Inr t) \<and>
   length (ocr_blocks recognize images i) \<le> length images"
proof -
  have 1: "files st f = Some content \<and> pdfplumber_open w content = Inr pages \<longrightarrow>
      snd (extract_text_pdfplumber w st f)
        = concat (map (\<lambda>(k, t). plumber_block k t) (page_blocks pages 1))"
    using extract_text_pdfplumber_blocks [of st f content w pages] by blast
  have 2: "temp_dir w = Inr dir \<and> files st f = Some content \<and>
    convert_from_path w content (ocr_dpi cfg) = Inr images \<longrightarrow>
      snd (extract_text_ocr cfg w st f)
        = Inr (concat (map (\<lambda>(k, t). plumber_block k t)
            (ocr_blocks (image_to_string w (if tesseract_cmd_path cfg \<noteq> [] then tesseract_cmd_path cfg
                                             else tesseract_cmd st)) images 0)))"
    using extract_text_ocr_blocks [of w dir st f content cfg images] by blast
  have 3: "\<forall>k t. (k, t) \<in> set (page_blocks pages n) \<longleftrightarrow>
      n \<le> k \<and> k < n + length pages \<and> pages ! (k - n) = PageText (Some t) \<and> t \<noteq> [] \<and>
      (\<forall>j < k - n. \<forall>e. pages ! j \<noteq> PageFault e)"
    by (intro allI) (rule page_blocks_member)
  have 4: "\<forall>k t. (k, t) \<in> set (ocr_blocks recognize images i) \<longleftrightarrow>
      i < k \<and> k \<le> i + length images \<and> recognize (images ! (k - Suc i)) = Inr t"
    by (intro allI) (rule ocr_blocks_member)
  have 5: "(\<forall>p \<in> set pages. \<exists>t. t \<noteq> [] \<and> p = PageText (Some t)) \<longrightarrow>
      map fst (page_blocks pages n) = [n ..< n + length pages]"
    using page_blocks_all [of pages n] by blast
  show ?thesis
    using 1 2 3 4 5 page_blocks_increasing [of pages n] page_blocks_length [of pages n]
      page_blocks_full [of pages n] ocr_blocks_increasing [of recognize images i]
      ocr_blocks_length [of recognize images i]
    by (intro conjI)
qed

lemma three_pages_witness_facts:
  "page_blocks [PageText (Some ''A''), PageText None, PageText (Some ''B'')] 1 = [(1, ''A''), (3, ''B'')]"
  "pdfplumber_open three_page_world [1, 2, 3]
     = Inr [PageText (Some ''A''), PageText None, PageText (Some ''B'')]"
  "files stored_state ''tmp0.pdf'' = Some [1, 2, 3]"
  "temp_dir three_page_world = Inr ''tmpdir0''"
  "convert_from_path three_page_world [1, 2, 3] (ocr_dpi sample_cfg) = Inr [(), ()]"
  "ocr_blocks (image_to_string three_page_world
      (if tesseract_cmd_path sample_cfg \<noteq> [] then tesseract_cmd_path sample_cfg
       else tesseract_cmd stored_state)) [(), ()] 0 = [(1, ''scan''), (2, ''scan'')]"
  by (simp_all add: three_page_world_def stored_state_def sample_world_def sample_cfg_def
      sample_state_def)

theorem extraction_page_blocks_witness:
  "snd (extract_text_pdfplumber three_page_world stored_state ''tmp0.pdf'')
     = plumber_block 1 ''A'' @ plumber_block 3 ''B'' \<and>
   length (page_blocks [PageText (Some ''A''), PageText None, PageText (Some ''B'')] 1) \<noteq> 3 \<and>
   (2, ''B'') \<notin> set (page_blocks [PageText (Some ''A''), PageText None, PageText (Some ''B'')] 1) \<and>
   snd (extract_text_ocr sample_cfg three_page_world stored_state ''tmp0.pdf'')
     = Inr (plumber_block 1 ''scan'' @ plumber_block 2 ''scan'') \<and>
   map fst (page_blocks [PageText (Some ''Hello World.''), PageText (Some ''Second page.'')] 1) = [1, 2]"
proof -
  let ?pages = "[PageText (Some ''A''), PageText None, PageText (Some ''B'')]"
  note a = extraction_page_blocks [where w = three_page_world and st = stored_state
      and f = "''tmp0.pdf''" and content = "[1, 2, 3]" and n = 1 and cfg = sample_cfg
      and dir = "''tmpdir0''" and images = "[(), ()]" and pages = ?pages]
  note b = extraction_page_blocks [where n = 1
      and pages = "[PageText (Some ''Hello World.''), PageText (Some ''Second page.'')]"]
  note facts = three_pages_witness_facts
  note a1 = a [THEN conjunct1]
  note a3 = a [THEN conjunct2, THEN conjunct2, THEN conjunct1]
  note a5 = a [THEN conjunct2, THEN conjunct2, THEN conjunct2, THEN conjunct2, THEN conjunct1]
  note a7 = a [THEN conjunct2, THEN conjunct2, THEN conjunct2, THEN conjunct2, THEN conjunct2,
      THEN conjunct2, THEN conjunct1]
  note b6 = b [THEN conjunct2, THEN conjunct2, THEN conjunct2, THEN conjunct2, THEN conjunct2,
      THEN conjunct1]
  from a1 facts(2,3)
  have "snd (extract_text_pdfplumber three_page_world stored_state ''tmp0.pdf'')
     = concat (map (\<lambda>(k, t). plumber_block k t) (page_blocks ?pages 1))"
    by blast
  then have 1: "snd (extract_text_pdfplumber three_page_world stored_state ''tmp0.pdf'')
     = plumber_block 1 ''A'' @ plumber_block 3 ''B''"
    unfolding facts(1) by simp
  have "\<not> (\<forall>p \<in> set ?pages. \<exists>t. t \<noteq> [] \<and> p = PageText (Some t))" by simp
  with a5 have "length (page_blocks ?pages 1) \<noteq> length ?pages" by blast
  then have 2: "length (page_blocks ?pages 1) \<noteq> 3" by simp
  from a3 have "(2, ''B'') \<in> set (page_blocks ?pages 1) \<longleftrightarrow>
      1 \<le> (2::nat) \<and> 2 < 1 + length ?pages \<and> ?pages ! (2 - 1) = PageText (Some ''B'') \<and> ''B'' \<noteq> [] \<and>
      (\<forall>j < 2 - 1. \<forall>e. ?pages ! j \<noteq> PageFault e)"
    by blast
  then have 3: "(2, ''B'') \<notin> set (page_blocks ?pages 1)" by simp
  from a7 facts(3,4,5)
  have "snd (extract_text_ocr sample_cfg three_page_world stored_state ''tmp0.pdf'')
        = Inr (concat (map (\<lambda>(k, t). plumber_block k t)
            (ocr_blocks (image_to_string three_page_world
               (if tesseract_cmd_path sample_cfg \<noteq> [] then tesseract_cmd_path sample_cfg
                else tesseract_cmd stored_state)) [(), ()] 0)))"
    by blast
  then have 4: "snd (extract_text_ocr sample_cfg three_page_world stored_state ''tmp0.pdf'')
     = Inr (plumber_block 1 ''scan'' @ plumber_block 2 ''scan'')"
    unfolding facts(6) by simp
  from b6 have "(\<forall>p \<in> set [PageText (Some ''Hello World.''), PageText (Some ''Second page.'')].
        \<exists>t. t \<noteq> [] \<and> p = PageText (Some t)) \<longrightarrow>
      map fst (page_blocks [PageText (Some ''Hello World.''), PageText (Some ''Second page.'')] 1)
        = [1 ..< 1 + length [PageText (Some ''Hello World.''), PageText (Some ''Second page.'')]]"
    by blast
  then have 5: "map fst (page_blocks [PageText (Some ''Hello World.''), PageText (Some ''Second page.'')] 1) = [1, 2]"
    by (simp add: upt_rec)
  from 1 2 3 4 5 show ?thesis by (intro conjI)
qed

section \<open>The two extractors on the same pages\<close>

text \<open>The sample world with a recognition engine that reads nothing on any page.\<close>

definition blank_scan_world :: "unit world" where
  "blank_scan_world = sample_world\<lparr>image_to_string := (\<lambda>cmd img. Inr [])\<rparr>"

text \<open>The sample world with a PDF of two pages whose texts are those that the sample engine reads.\<close>

definition two_scan_world :: "unit world" where
  "two_scan_world = sample_world\<lparr>pdfplumber_open :=
      (\<lambda>content. Inr [PageText (Some ''scan''), PageText (Some ''scan'')])\<rparr>"

lemma ocr_loop_is_plumber_loop:
  assumes "map (image_to_string w (tesseract_cmd st)) images = map Inr ts"
    and "list_all (\<lambda>t. t \<noteq> []) ts"
  shows "snd (ocr_loop cfg w images i st acc)
         = fst (plumber_loop (map (\<lambda>t. PageText (Some t)) ts) (i + 1) acc)"
  using ocr_blocks_as_page_blocks [OF assms, of i]
  by (simp add: ocr_loop_blocks plumber_loop_blocks)

lemma extract_text_ocr_is_pdfplumber:
  assumes "temp_dir w = Inr dir" "files st f = Some content"
    "convert_from_path w content (ocr_dpi cfg) = Inr images"
    "map (image_to_string w (if tesseract_cmd_path cfg \<noteq> [] then tesseract_cmd_path cfg
                             else tesseract_cmd st)) images = map Inr ts"
    "list_all (\<lambda>t. t \<noteq> []) ts"
    "files st' f' = Some content'"
    "pdfplumber_open w' content' = Inr (map (\<lambda>t. PageText (Some t)) ts)"
  shows "snd (extract_text_ocr cfg w st f) = Inr (snd (extract_text_pdfplumber w' st' f'))"
  using extract_text_ocr_blocks [OF assms(1,2,3)] extract_text_pdfplumber_blocks [OF assms(6,7)]
    ocr_blocks_as_page_blocks [OF assms(4,5), of 0]
  by simp

lemma blank_scan_facts:
  "snd (ocr_loop sample_cfg blank_scan_world [()] 0 sample_state []) = [LF, LF] @ ''# Page 1'' @ [LF, LF]"
  "fst (plumber_loop [PageText (Some [])] 1 []) = []"
  by code_simp+

text \<open>
  C9, as the claim states it, fails for the empty page text: for a page that is
  recognized with no text the OCR extractor appends a block that is only a heading,
  while the digital extractor appends nothing for a page number 1 with the same text.
\<close>

theorem ocr_empty_page_counterexample:
  "snd (ocr_loop sample_cfg blank_scan_world [()] 0 sample_state []) = [LF, LF] @ ''# Page 1'' @ [LF, LF] \<and>
   fst (plumber_loop [PageText (Some [])] 1 []) = [] \<and>
   snd (ocr_loop sample_cfg blank_scan_world [()] 0 sample_state [])
     \<noteq> fst (plumber_loop [PageText (Some [])] 1 [])"
  unfolding blank_scan_facts by simp

text \<open>
  C9, amended. For every page index \<open>i\<close> and every page text that is not empty, what the
  loop of the OCR extractor appends for a page recognized with that text is, character
  for character, what the loop of the digital extractor appends for a page with number
  \<open>i + 1\<close> and that text; so when every page is recognized, with a text that is not empty,
  the OCR extractor returns the text that the digital extractor returns for a PDF whose
  pages have these texts. For the empty text the digital extractor appends nothing and
  the OCR extractor appends the heading alone.
\<close>

theorem ocr_text_is_plumber_text:
  "(image_to_string w (tesseract_cmd st) img = Inr t \<and> t \<noteq> [] \<longrightarrow>
      snd (ocr_loop cfg w [img] i st acc) = acc @ plumber_block (i + 1) t \<and>
      fst (plumber_loop [PageText (Some t)] (i + 1) acc) = acc @ plumber_block (i + 1) t) \<and>
   (image_to_string w (tesseract_cmd st) img = Inr [] \<longrightarrow>
      snd (ocr_loop cfg w [img] i st acc) = acc @ plumber_block (i + 1) [] \<and>
      fst (plumber_loop [PageText (Some [])] (i + 1) acc) = acc) \<and>
   (map (image_to_string w (tesseract_cmd st)) images = map Inr ts \<and> list_all (\<lambda>t. t \<noteq> []) ts \<longrightarrow>
      snd (ocr_loop cfg w images i st acc)
        = fst (plumber_loop (map (\<lambda>t. PageText (Some t)) ts) (i + 1) acc)) \<and>
   (temp_dir w = Inr dir \<and> files st f = Some content \<and>
    convert_from_path w content (ocr_dpi cfg) = Inr images \<and>
    map (image_to_string w (if tesseract_cmd_path cfg \<noteq> [] then tesseract_cmd_path cfg
                             else tesseract_cmd st)) images = map Inr ts \<and>
    list_all (\<lambda>t. t \<noteq> []) ts \<and>
    files st' f' = Some content' \<and>
    pdfplumber_open w' content' = Inr (map (\<lambda>t. PageText (Some t)) ts) \<longrightarrow>
      snd (extract_text_ocr cfg w st f) = Inr (snd (extract_text_pdfplumber w' st' f')))"
proof -
  have 1: "image_to_string w (tesseract_cmd st) img = Inr t \<and> t \<noteq> [] \<longrightarrow>
      snd (ocr_loop cfg w [img] i st acc) = acc @ plumber_block (i + 1) t \<and>
      fst (plumber_loop [PageText (Some t)] (i + 1) acc) = acc @ plumber_block (i + 1) t"
    by (simp add: Let_def ocr_block_def plumber_block_def)
  have 2: "image_to_string w (tesseract_cmd st) img = Inr [] \<longrightarrow>
      snd (ocr_loop cfg w [img] i st acc) = acc @ plumber_block (i + 1) [] \<and>
      fst (plumber_loop [PageText (Some [])] (i + 1) acc) = acc"
    by (simp add: Let_def ocr_block_def plumber_block_def)
  have 3: "map (image_to_string w (tesseract_cmd st)) images = map Inr ts \<and> list_all (\<lambda>t. t \<noteq> []) ts \<longrightarrow>
      snd (ocr_loop cfg w images i st acc)
        = fst (plumber_loop (map (\<lambda>t. PageText (Some t)) ts) (i + 1) acc)"
    using ocr_loop_is_plumber_loop [of w st images ts cfg i acc] by blast
  have 4: "temp_dir w = Inr dir \<and> files st f = Some content \<and>
    convert_from_path w content (ocr_dpi cfg) = Inr images \<and>
    map (image_to_string w (if tesseract_cmd_path cfg \<noteq> [] then tesseract_cmd_path cfg
                             else tesseract_cmd st)) images = map Inr ts \<and>
    list_all (\<lambda>t. t \<noteq> []) ts \<and>
    files st' f' = Some content' \<and>
    pdfplumber_open w' content' = Inr (map (\<lambda>t. PageText (Some t)) ts) \<longrightarrow>
      snd (extract_text_ocr cfg w st f) = Inr (snd (extract_text_pdfplumber w' st' f'))"
    using extract_text_ocr_is_pdfplumber [of w dir st f content cfg images ts st' f' content' w']
    by blast
  from 1 2 3 4 show ?thesis by (intro conjI)
qed

lemma two_scan_facts:
  "image_to_string sample_world (tesseract_cmd sample_state) () = Inr ''scan''"
  "temp_dir sample_world = Inr ''tmpdir0''"
  "files stored_state ''tmp0.pdf'' = Some [1, 2, 3]"
  "convert_from_path sample_world [1, 2, 3] (ocr_dpi sample_cfg) = Inr [(), ()]"
  "map (image_to_string sample_world
      (if tesseract_cmd_path sample_cfg \<noteq> [] then tesseract_cmd_path sample_cfg
       else tesseract_cmd stored_state)) [(), ()] = map Inr [''scan'', ''scan'']"
  "pdfplumber_open two_scan_world [1, 2, 3]
     = Inr (map (\<lambda>t. PageText (Some t)) [''scan'', ''scan''])"
  by (simp_all add: two_scan_world_def stored_state_def sample_world_def sample_cfg_def
      sample_state_def)

theorem ocr_text_is_plumber_text_witness:
  "snd (ocr_loop sample_cfg sample_world [()] 4 sample_state ''so far'')
     = ''so far'' @ plumber_block 5 ''scan'' \<and>
   fst (plumber_loop [PageText (Some ''scan'')] 5 ''so far'') = ''so far'' @ plumber_block 5 ''scan'' \<and>
   snd (extract_text_ocr sample_cfg sample_world stored_state ''tmp0.pdf'')
     = Inr (snd (extract_text_pdfplumber two_scan_world stored_state ''tmp0.pdf''))"
proof -
  note a = ocr_text_is_plumber_text [where w = sample_world and st = sample_state and img = "()"
      and t = "''scan''" and cfg = sample_cfg and i = 4 and acc = "''so far''"]
  note b = ocr_text_is_plumber_text [where w = sample_world and st = stored_state
      and cfg = sample_cfg and dir = "''tmpdir0''" and f = "''tmp0.pdf''" and content = "[1, 2, 3]"
      and images = "[(), ()]" and ts = "[''scan'', ''scan'']" and st' = stored_state
      and f' = "''tmp0.pdf''" and content' = "[1, 2, 3]" and w' = two_scan_world]
  note facts = two_scan_facts
  have ne: "''scan'' \<noteq> []" "list_all (\<lambda>t. t \<noteq> []) [''scan'', ''scan'']" by simp_all
  from a facts(1) ne(1)
  have "snd (ocr_loop sample_cfg sample_world [()] 4 sample_state ''so far'')
          = ''so far'' @ plumber_block (4 + 1) ''scan'' \<and>
        fst (plumber_loop [PageText (Some ''scan'')] (4 + 1) ''so far'')
          = ''so far'' @ plumber_block (4 + 1) ''scan''"
    by blast
  then have 1: "snd (ocr_loop sample_cfg sample_world [()] 4 sample_state ''so far'')
     = ''so far'' @ plumber_block 5 ''scan'' \<and>
   fst (plumber_loop [PageText (Some ''scan'')] 5 ''so far'') = ''so far'' @ plumber_block 5 ''scan''"
    by simp
  from b facts(2,3,4,5,6) ne(2)
  have 2: "snd (extract_text_ocr sample_cfg sample_world stored_state ''tmp0.pdf'')
     = Inr (snd (extract_text_pdfplumber two_scan_world stored_state ''tmp0.pdf''))"
    by blast
  from 1 2 show ?thesis by blast
qed

section \<open>What the matcher accepts\<close>

text \<open>
  The shape of the texts that a pattern matches at their start, said without the matcher:
  each item takes a text of its class whose length is within its bounds.
\<close>

primrec shaped :: "item list \<Rightarrow> nat \<Rightarrow> string \<Rightarrow> bool" where
  "shaped [] pos s = True"
| "shaped (it # its) pos s =
     (case it of
        Bos \<Rightarrow> pos = 0 \<and> shaped its pos s
      | Eos \<Rightarrow> (s = [] \<or> s = [LF]) \<and> shaped its pos s
      | Chars c m mx \<Rightarrow>
          (\<exists>x rest. s = x @ rest \<and> list_all (in_class c) x \<and> m \<le> length x \<and>
                     (case mx of None \<Rightarrow> True | Some k \<Rightarrow> length x \<le> k) \<and>
                     shaped its (pos + length x) rest))"

text \<open>
  A page header line as the specification describes it: digits, a slash, digits,
  whitespace and four digits, with whitespace allowed around them and nothing else.
\<close>

definition header_shape :: "string \<Rightarrow> bool" where
  "header_shape line \<longleftrightarrow>
     (\<exists>ws1 d1 d2 ws2 y ws3.
        line = ws1 @ d1 @ ''/'' @ d2 @ ws2 @ y @ ws3 \<and>
        list_all is_space ws1 \<and> d1 \<noteq> [] \<and> list_all is_digit d1 \<and>
        d2 \<noteq> [] \<and> list_all is_digit d2 \<and> ws2 \<noteq> [] \<and> list_all is_space ws2 \<and>
        length y = 4 \<and> list_all is_digit y \<and> list_all is_space ws3)"

lemma try_from_None_iff:
  "try_from k s m n = None \<longleftrightarrow> (\<forall>j. m \<le> j \<and> j \<le> n \<longrightarrow> k j = None)"
proof (induction n)
  case 0
  show ?case
  proof (cases "m = 0")
    case True
    then show ?thesis by (cases "k 0") simp_all
  next
    case False
    then show ?thesis by simp
  qed
next
  case (Suc n)
  have range: "(\<forall>j. m \<le> j \<and> j \<le> Suc n \<longrightarrow> k j = None) \<longleftrightarrow>
               (\<forall>j. m \<le> j \<and> j \<le> n \<longrightarrow> k j = None) \<and> (m \<le> Suc n \<longrightarrow> k (Suc n) = None)"
    by (metis le_Suc_eq order_refl)
  show ?case
  proof (cases "Suc n < m")
    case True
    then have "\<forall>j. m \<le> j \<and> j \<le> Suc n \<longrightarrow> k j = None" by auto
    with True show ?thesis by simp
  next
    case False
    then have m: "m \<le> Suc n" by simp
    show ?thesis
    proof (cases "k (Suc n)")
      case None
      then have "try_from k s m (Suc n) = try_from k s m n"
        using False by simp
      with None m Suc.IH range show ?thesis by simp
    next
      case (Some ps)
      then have "try_from k s m (Suc n) \<noteq> None"
        using False by simp
      moreover have "\<not> (\<forall>j. m \<le> j \<and> j \<le> Suc n \<longrightarrow> k j = None)"
        using range m Some by simp
      ultimately show ?thesis by blast
    qed
  qed
qed

lemma le_run_iff: "j \<le> run c s \<longleftrightarrow> j \<le> length s \<and> list_all (in_class c) (take j s)"
proof (induction s arbitrary: j)
  case Nil
  then show ?case by (simp add: run_def)
next
  case (Cons a s)
  show ?case
  proof (cases j)
    case 0
    then show ?thesis by simp
  next
    case (Suc i)
    with Cons [of i] show ?thesis by (simp add: run_def)
  qed
qed

lemma chars_shape:
  "(\<exists>j. m \<le> j \<and> j \<le> (case mx of None \<Rightarrow> run c s | Some k \<Rightarrow> min k (run c s)) \<and> Q j (drop j s)) \<longleftrightarrow>
   (\<exists>x rest. s = x @ rest \<and> list_all (in_class c) x \<and> m \<le> length x \<and>
              (case mx of None \<Rightarrow> True | Some k \<Rightarrow> length x \<le> k) \<and> Q (length x) rest)"
  (is "?L \<longleftrightarrow> ?R")
proof
  assume ?L
  then obtain j where j: "m \<le> j" "j \<le> (case mx of None \<Rightarrow> run c s | Some k \<Rightarrow> min k (run c s))"
    "Q j (drop j s)" by blast
  then have r: "j \<le> run c s" and k: "case mx of None \<Rightarrow> True | Some k \<Rightarrow> j \<le> k"
    by (auto split: option.splits)
  from r have "j \<le> length s" "list_all (in_class c) (take j s)"
    by (simp_all add: le_run_iff)
  then have "s = take j s @ drop j s \<and> list_all (in_class c) (take j s) \<and> length (take j s) = j"
    by simp
  with j k show ?R by (metis (no_types, lifting))
next
  assume ?R
  then obtain x rest where x: "s = x @ rest" "list_all (in_class c) x" "m \<le> length x"
    "case mx of None \<Rightarrow> True | Some k \<Rightarrow> length x \<le> k" "Q (length x) rest" by blast
  then have "length x \<le> run c s"
    by (simp add: le_run_iff)
  with x have "m \<le> length x \<and>
      length x \<le> (case mx of None \<Rightarrow> run c s | Some k \<Rightarrow> min k (run c s)) \<and>
      Q (length x) (drop (length x) s)"
    by (auto split: option.splits)
  then show ?L by blast
qed

lemma match_items_shaped: "match_items p pos s \<noteq> None \<longleftrightarrow> shaped p pos s"
proof (induction p arbitrary: pos s)
  case Nil
  then show ?case by simp
next
  case (Cons it its)
  show ?case
  proof (cases it)
    case (Chars c m mx)
    have "match_items (it # its) pos s \<noteq> None \<longleftrightarrow>
          (\<exists>j. m \<le> j \<and> j \<le> (case mx of None \<Rightarrow> run c s | Some k \<Rightarrow> min k (run c s)) \<and>
               shaped its (pos + j) (drop j s))"
      using Chars Cons.IH by (simp add: try_from_None_iff)
    also have "\<dots> \<longleftrightarrow> shaped (it # its) pos s"
      using Chars chars_shape [where m = m and mx = mx and c = c and s = s
          and Q = "\<lambda>j r. shaped its (pos + j) r"] by simp
    finally show ?thesis .
  next
    case Bos
    with Cons.IH show ?thesis by auto
  next
    case Eos
    with Cons.IH show ?thesis by auto
  qed
qed

lemma lit_once: "list_all (in_class (Lit d)) x \<and> 1 \<le> length x \<and> length x \<le> 1 \<longleftrightarrow> x = [d]"
  by (cases x) (auto simp: Suc_le_eq)

lemma in_class_eq:
  "in_class Space = is_space" "in_class Digit = is_digit" "in_class Word = is_word"
  "in_class Upper = is_upper" "in_class Lower = is_lower"
  by (simp_all add: fun_eq_iff)

lemma is_space_LF: "is_space LF"
  by (simp add: is_space_def code_def)

lemma shaped_many:
  "shaped (Chars c m None # its) pos s \<Longrightarrow>
   \<exists>x rest. s = x @ rest \<and> list_all (in_class c) x \<and> m \<le> length x \<and>
             shaped its (pos + length x) rest"
  by simp

lemma shaped_bounded:
  "shaped (Chars c m (Some k) # its) pos s \<Longrightarrow>
   \<exists>x rest. s = x @ rest \<and> list_all (in_class c) x \<and> m \<le> length x \<and> length x \<le> k \<and>
             shaped its (pos + length x) rest"
  by simp

lemma shaped_CharsI:
  "list_all (in_class c) x \<Longrightarrow> m \<le> length x \<Longrightarrow>
   (case mx of None \<Rightarrow> True | Some k \<Rightarrow> length x \<le> k) \<Longrightarrow>
   shaped its (pos + length x) rest \<Longrightarrow> shaped (Chars c m mx # its) pos (x @ rest)"
  by (simp only: shaped.simps item.case) blast

lemma header_pat_shape: "re_match header_pat line \<longleftrightarrow> header_shape line"
proof -
  have "re_match header_pat line \<longleftrightarrow> shaped header_pat 0 line"
    unfolding re_match_def by (rule match_items_shaped)
  also have "\<dots> \<longleftrightarrow> header_shape line"
  proof
    assume "shaped header_pat 0 line"
    then have "shaped [many0 Space, many1 Digit, once (Lit (CHR ''/'')), many1 Digit, many1 Space,
                  exactly 4 Digit, many0 Space, Eos] 0 line"
      by (simp only: header_pat_def shaped.simps item.case)
    then have s0: "shaped [many0 Space, many1 Digit, once (Lit (CHR ''/'')), many1 Digit, many1 Space,
                  exactly 4 Digit, many0 Space, Eos] 0 line" .
    from shaped_many [OF s0] obtain ws1 r1 where 1: "line = ws1 @ r1" "list_all (in_class Space) ws1"
      and s1: "shaped [many1 Digit, once (Lit (CHR ''/'')), many1 Digit, many1 Space,
                  exactly 4 Digit, many0 Space, Eos] (0 + length ws1) r1"
      by blast
    from shaped_many [OF s1] obtain d1 r2 where 2: "r1 = d1 @ r2" "list_all (in_class Digit) d1" "1 \<le> length d1"
      and s2: "shaped [once (Lit (CHR ''/'')), many1 Digit, many1 Space,
                  exactly 4 Digit, many0 Space, Eos] (0 + length ws1 + length d1) r2"
      by blast
    from shaped_bounded [OF s2] obtain sl r3 where 3: "r2 = sl @ r3"
        "list_all (in_class (Lit (CHR ''/''))) sl \<and> 1 \<le> length sl \<and> length sl \<le> 1"
      and s3: "shaped [many1 Digit, many1 Space, exactly 4 Digit, many0 Space, Eos]
                  (0 + length ws1 + length d1 + length sl) r3"
      by blast
    from shaped_many [OF s3] obtain d2 r4 where 4: "r3 = d2 @ r4" "list_all (in_class Digit) d2" "1 \<le> length d2"
      and s4: "shaped [many1 Space, exactly 4 Digit, many0 Space, Eos]
                  (0 + length ws1 + length d1 + length sl + length d2) r4"
      by blast
    from shaped_many [OF s4] obtain ws2 r5 where 5: "r4 = ws2 @ r5" "list_all (in_class Space) ws2" "1 \<le> length ws2"
      and s5: "shaped [exactly 4 Digit, many0 Space, Eos]
                  (0 + length ws1 + length d1 + length sl + length d2 + length ws2) r5"
      by blast
    from shaped_bounded [OF s5] obtain y r6 where 6: "r5 = y @ r6" "list_all (in_class Digit) y" "4 \<le> length y"
        "length y \<le> 4"
      and s6: "shaped [many0 Space, Eos]
                  (0 + length ws1 + length d1 + length sl + length d2 + length ws2 + length y) r6"
      by blast
    from shaped_many [OF s6] obtain ws3 r where 7: "r6 = ws3 @ r" "list_all (in_class Space) ws3"
      and s7: "shaped [Eos] (0 + length ws1 + length d1 + length sl + length d2 + length ws2
                  + length y + length ws3) r"
      by blast
    from s7 have r: "r = [] \<or> r = [LF]" by simp
    from 3(2) have sl: "sl = ''/''" by (simp only: lit_once)
    from r 7(2) have "list_all is_space (ws3 @ r)" by (auto simp: is_space_LF in_class_eq)
    moreover from 2(3) 4(3) 5(3) 6(3,4) have "d1 \<noteq> []" "d2 \<noteq> []" "ws2 \<noteq> []" "length y = 4"
      by auto
    moreover have "line = ws1 @ d1 @ ''/'' @ d2 @ ws2 @ y @ (ws3 @ r)"
      using 1(1) 2(1) 3(1) 4(1) 5(1) 6(1) 7(1) sl by simp
    ultimately show "header_shape line"
      unfolding header_shape_def using 1(2) 2(2) 4(2) 5(2) 6(2)
      by (intro exI [of _ ws1] exI [of _ d1] exI [of _ d2] exI [of _ ws2] exI [of _ y]
            exI [of _ "ws3 @ r"]) (simp add: in_class_eq)
  next
    assume "header_shape line"
    then obtain ws1 d1 d2 ws2 y ws3 where
      line: "line = ws1 @ d1 @ ''/'' @ d2 @ ws2 @ y @ ws3" and
      p: "list_all is_space ws1" "d1 \<noteq> []" "list_all is_digit d1" "d2 \<noteq> []"
         "list_all is_digit d2" "ws2 \<noteq> []" "list_all is_space ws2" "length y = 4"
         "list_all is_digit y" "list_all is_space ws3"
      unfolding header_shape_def by blast
    have s8: "shaped [Eos] n []" for n
      by simp
    have s7: "shaped [many0 Space, Eos] n (ws3 @ [])" for n
      by (rule shaped_CharsI [OF _ _ _ s8]) (use p(10) in \<open>simp_all add: in_class_eq\<close>)
    have s6: "shaped [exactly 4 Digit, many0 Space, Eos] n (y @ ws3 @ [])" for n
      by (rule shaped_CharsI [OF _ _ _ s7]) (use p(8,9) in \<open>simp_all add: in_class_eq\<close>)
    have s5: "shaped [many1 Space, exactly 4 Digit, many0 Space, Eos] n (ws2 @ y @ ws3 @ [])" for n
      by (rule shaped_CharsI [OF _ _ _ s6]) (use p(6,7) in \<open>simp_all add: in_class_eq Suc_le_eq\<close>)
    have s4: "shaped [many1 Digit, many1 Space, exactly 4 Digit, many0 Space, Eos] n
                (d2 @ ws2 @ y @ ws3 @ [])" for n
      by (rule shaped_CharsI [OF _ _ _ s5]) (use p(4,5) in \<open>simp_all add: in_class_eq Suc_le_eq\<close>)
    have s3: "shaped [once (Lit (CHR ''/'')), many1 Digit, many1 Space, exactly 4 Digit,
                      many0 Space, Eos] n (''/'' @ d2 @ ws2 @ y @ ws3 @ [])" for n
      by (rule shaped_CharsI [OF _ _ _ s4]) simp_all
    have s2: "shaped [many1 Digit, once (Lit (CHR ''/'')), many1 Digit, many1 Space,
                      exactly 4 Digit, many0 Space, Eos] n (d1 @ ''/'' @ d2 @ ws2 @ y @ ws3 @ [])" for n
      by (rule shaped_CharsI [OF _ _ _ s3]) (use p(2,3) in \<open>simp_all add: in_class_eq Suc_le_eq\<close>)
    have "shaped [many0 Space, many1 Digit, once (Lit (CHR ''/'')), many1 Digit, many1 Space,
                  exactly 4 Digit, many0 Space, Eos] n (ws1 @ d1 @ ''/'' @ d2 @ ws2 @ y @ ws3 @ [])" for n
      by (rule shaped_CharsI [OF _ _ _ s2]) (use p(1) in \<open>simp_all add: in_class_eq\<close>)
    then show "shaped header_pat 0 line"
      using line by (simp add: header_pat_def)
  qed
  finally show ?thesis .
qed

lemma filter_lines_acc:
  "filter_lines lines acc = acc @ filter (\<lambda>line. \<not> re_match header_pat line) lines"
  by (induction lines arbitrary: acc) simp_all

lemma header_examples:
  "re_match header_pat ''49/3 2024''" "\<not> re_match header_pat ''Section 4/3 2024 notes''"
  by code_simp+

text \<open>
  C3. \<open>remove_page_headers\<close> returns the lines of the text that do not have the shape of
  a page header, unchanged and in their order, joined by line feeds; \<open>49/3 2024\<close> has
  the shape, \<open>Section 4/3 2024 notes\<close> has not.
\<close>

theorem remove_page_headers_lines:
  "remove_page_headers text0
     = join [LF] (filter (\<lambda>line. \<not> header_shape line) (splitlines text0)) \<and>
   header_shape ''49/3 2024'' \<and> \<not> header_shape ''Section 4/3 2024 notes''"
  using header_examples
  by (simp add: remove_page_headers_def filter_lines_acc header_pat_shape)

section \<open>Matches of the patterns of the cleaner\<close>

lemma try_from_first:
  "k n = Some ps \<Longrightarrow> m \<le> n \<Longrightarrow> try_from k s m n = Some (take n s # ps)"
  by (cases n) auto

lemma try_from_below: "n < m \<Longrightarrow> try_from k s m n = None"
  by (cases n) auto

lemma try_from_top:
  assumes "\<forall>j<n. k j = None" and "m \<le> n"
  shows "try_from k s m n = (case k n of None \<Rightarrow> None | Some ps \<Rightarrow> Some (take n s # ps))"
proof (cases "k n")
  case None
  with assms(1) have "\<forall>j. m \<le> j \<and> j \<le> n \<longrightarrow> k j = None"
    by (metis le_neq_implies_less)
  then have "try_from k s m n = None" by (simp only: try_from_None_iff)
  with None show ?thesis by simp
next
  case (Some ps)
  with assms(2) show ?thesis by (simp add: try_from_first)
qed

lemma run_Cons: "run c (a # s) = (if in_class c a then Suc (run c s) else 0)"
  by (simp add: run_def)

lemma run_Nil: "run c [] = 0"
  by (simp add: run_def)

lemma take_run: "take (run c s) s = takeWhile (in_class c) s"
  unfolding run_def by (rule takeWhile_eq_take [symmetric])

lemma drop_run: "drop (run c s) s = dropWhile (in_class c) s"
  unfolding run_def by (rule dropWhile_eq_drop [symmetric])

lemma match_once:
  "match_items (once c # its) pos s =
     (case s of
        [] \<Rightarrow> None
      | a # cs \<Rightarrow> if in_class c a then map_option (Cons [a]) (match_items its (Suc pos) cs)
                  else None)"
proof (cases s)
  case Nil
  then show ?thesis by (simp add: run_Nil)
next
  case (Cons a cs)
  show ?thesis
  proof (cases "in_class c a")
    case True
    then have "min 1 (run c s) = Suc 0" using Cons by (simp add: run_Cons)
    with Cons True show ?thesis by (cases "match_items its (Suc pos) cs") simp_all
  next
    case False
    with Cons show ?thesis by (simp add: run_Cons)
  qed
qed

lemma match_last_many:
  "match_items [Chars c m None] pos s =
     (if m \<le> run c s then Some [takeWhile (in_class c) s] else None)"
  by (simp add: try_from_first try_from_below take_run)

lemma drop_in_run:
  "j < run c s \<Longrightarrow> \<exists>a cs. drop j s = a # cs \<and> in_class c a"
proof (induction s arbitrary: j)
  case Nil
  then show ?case by (simp add: run_Nil)
next
  case (Cons b s)
  then show ?case by (cases j) (auto simp: run_Cons split: if_splits)
qed

lemma match_many_then_lit:
  assumes "\<not> in_class c d"
  shows "match_items (Chars c m None # once (Lit d) # its) pos s =
     (if m \<le> run c s
      then map_option (Cons (takeWhile (in_class c) s))
             (match_items (once (Lit d) # its) (pos + run c s) (dropWhile (in_class c) s))
      else None)"
proof (cases "m \<le> run c s")
  case False
  then show ?thesis by (simp add: try_from_below del: match_items.simps(2)
        add: match_items.simps(2) [of "Chars c m None"])
next
  case True
  let ?k = "\<lambda>j. match_items (once (Lit d) # its) (pos + j) (drop j s)"
  have "\<forall>j < run c s. ?k j = None"
  proof (intro allI impI)
    fix j assume "j < run c s"
    then obtain a cs where "drop j s = a # cs" "in_class c a"
      using drop_in_run by blast
    with assms have "drop j s = a # cs" "a \<noteq> d" by auto
    then show "?k j = None" by (simp only: match_once) simp
  qed
  from try_from_top [OF this True, of s]
  have "try_from ?k s m (run c s) =
        (case ?k (run c s) of None \<Rightarrow> None | Some ps \<Rightarrow> Some (take (run c s) s # ps))" .
  moreover have "match_items (Chars c m None # once (Lit d) # its) pos s
        = try_from ?k s m (run c s)"
    by simp
  ultimately show ?thesis
    using True by (simp only: take_run drop_run) (simp split: option.splits)
qed

section \<open>Substitution, step by step\<close>

lemma match_items_pos:
  "Bos \<notin> set p \<Longrightarrow> match_items p pos s = match_items p pos' s"
proof (induction p arbitrary: pos pos' s)
  case Nil
  then show ?case by simp
next
  case (Cons it its)
  then have ih: "match_items its q r = match_items its q' r" for q q' r by simp
  show ?case
  proof (cases it)
    case (Chars c m mx)
    have "(\<lambda>j. match_items its (pos + j) (drop j s)) = (\<lambda>j. match_items its (pos' + j) (drop j s))"
      using ih by (intro ext)
    with Chars show ?thesis by simp
  next
    case Bos
    with Cons.prems show ?thesis by simp
  next
    case Eos
    with ih [of pos s pos'] show ?thesis by simp
  qed
qed

lemma re_sub_at_none:
  "match_items p pos s = None \<Longrightarrow>
   re_sub_at p t pos s = (case s of [] \<Rightarrow> [] | c # cs \<Rightarrow> c # re_sub_at p t (Suc pos) cs)"
  by (subst re_sub_at.simps) simp

lemma re_sub_at_empty:
  "match_items p pos s = Some ps \<Longrightarrow> concat ps = [] \<Longrightarrow>
   re_sub_at p t pos s
     = expand t ps @ (case s of [] \<Rightarrow> [] | c # cs \<Rightarrow> c # re_sub_at p t (Suc pos) cs)"
  by (subst re_sub_at.simps) simp

lemma re_sub_at_some:
  "match_items p pos s = Some ps \<Longrightarrow> concat ps \<noteq> [] \<Longrightarrow>
   re_sub_at p t pos s
     = expand t ps @ re_sub_at p t (pos + length (concat ps)) (drop (length (concat ps)) s)"
  by (subst re_sub_at.simps) auto

lemma re_sub_at_pos:
  assumes "Bos \<notin> set p"
  shows "re_sub_at p t pos s = re_sub_at p t pos' s"
proof (induction "length s" arbitrary: s pos pos' rule: less_induct)
  case less
  have m: "match_items p pos' s = match_items p pos s"
    by (rule match_items_pos [OF assms])
  have tail: "(case s of [] \<Rightarrow> [] | c # cs \<Rightarrow> c # re_sub_at p t (Suc pos) cs)
            = (case s of [] \<Rightarrow> [] | c # cs \<Rightarrow> c # re_sub_at p t (Suc pos') cs)"
  proof (cases s)
    case Nil
    then show ?thesis by simp
  next
    case (Cons c cs)
    with less [of cs "Suc pos" "Suc pos'"] show ?thesis by simp
  qed
  show ?case
  proof (cases "match_items p pos s")
    case None
    with m have "match_items p pos' s = None" by simp
    with tail show ?thesis
      unfolding re_sub_at_none [OF None] re_sub_at_none [OF \<open>match_items p pos' s = None\<close>] by simp
  next
    case (Some ps)
    with m have m': "match_items p pos' s = Some ps" by simp
    show ?thesis
    proof (cases "concat ps = []")
      case True
      with tail show ?thesis
        unfolding re_sub_at_empty [OF Some True] re_sub_at_empty [OF m' True] by simp
    next
      case False
      let ?n = "length (concat ps)"
      from False have "0 < ?n" by simp
      with match_items_length [OF Some] have "length (drop ?n s) < length s"
        unfolding length_drop by linarith
      from less [OF this, of "pos + ?n" "pos' + ?n"] show ?thesis
        unfolding re_sub_at_some [OF Some False] re_sub_at_some [OF m' False] by simp
    qed
  qed
qed

lemma re_sub_Nil: "match_items p 0 [] = None \<Longrightarrow> re_sub p t [] = []"
  by (simp add: re_sub_def re_sub_at_none)

lemma re_sub_no_match:
  "Bos \<notin> set p \<Longrightarrow> match_items p 0 (c # cs) = None \<Longrightarrow> re_sub p t (c # cs) = c # re_sub p t cs"
  using re_sub_at_pos [of p t "Suc 0" cs 0]
  by (simp add: re_sub_def re_sub_at_none)

lemma re_sub_match:
  "Bos \<notin> set p \<Longrightarrow> match_items p 0 s = Some ps \<Longrightarrow> concat ps \<noteq> [] \<Longrightarrow>
   re_sub p t s = expand t ps @ re_sub p t (drop (length (concat ps)) s)"
  using re_sub_at_pos [of p t "0 + length (concat ps)" "drop (length (concat ps)) s" 0]
  by (simp add: re_sub_def re_sub_at_some)

section \<open>Hyphenation repair\<close>

text \<open>A text ends in a hyphenated word fragment: its last two characters are a word character and a hyphen.\<close>

definition hyphenated_end :: "string \<Rightarrow> bool" where
  "hyphenated_end pre = (case rev pre of h # c # r \<Rightarrow> h = CHR ''-'' \<and> is_word c | _ \<Rightarrow> False)"

lemma not_word_hyphen: "\<not> is_word (CHR ''-'')"
  by (simp add: is_word_def is_digit_def is_upper_def is_lower_def code_def)

lemma not_word_LF: "\<not> is_word LF"
  by (simp add: is_word_def is_digit_def is_upper_def is_lower_def code_def)

lemma one_le_run: "1 \<le> run c s \<longleftrightarrow> takeWhile (in_class c) s \<noteq> []"
  by (cases s) (simp_all add: run_def)

lemma hyphen_match:
  "match_items hyphen_pat pos s =
     (case dropWhile is_word s of
        a # b # r2 \<Rightarrow>
          if takeWhile is_word s \<noteq> [] \<and> a = CHR ''-'' \<and> b = LF \<and> takeWhile is_word r2 \<noteq> []
          then Some [takeWhile is_word s, ''-'', [LF], takeWhile is_word r2] else None
      | _ \<Rightarrow> None)"
proof -
  have "match_items hyphen_pat pos s =
     (if 1 \<le> run Word s
      then map_option (Cons (takeWhile (in_class Word) s))
             (match_items [once (Lit (CHR ''-'')), once (Lit LF), many1 Word] (pos + run Word s)
                (dropWhile (in_class Word) s))
      else None)"
    unfolding hyphen_pat_def by (rule match_many_then_lit) (simp add: not_word_hyphen)
  then have m: "match_items hyphen_pat pos s =
     (if takeWhile is_word s \<noteq> []
      then map_option (Cons (takeWhile is_word s))
             (match_items [once (Lit (CHR ''-'')), once (Lit LF), many1 Word] (pos + run Word s)
                (dropWhile is_word s))
      else None)"
    by (simp only: one_le_run in_class_eq)
  show ?thesis
  proof (cases "dropWhile is_word s")
    case Nil
    then show ?thesis unfolding m by (simp only: match_once) simp
  next
    case (Cons a r1)
    show ?thesis
    proof (cases r1)
      case Nil
      with Cons show ?thesis unfolding m by (simp only: match_once) simp
    next
      case (Cons b r2)
      with \<open>dropWhile is_word s = a # r1\<close> show ?thesis
        unfolding m by (simp only: match_once match_last_many one_le_run in_class_eq) simp
    qed
  qed
qed

lemma takeWhile_stop: "\<not> P x \<Longrightarrow> takeWhile P (xs @ x # ys) = takeWhile P xs"
  by (induction xs) simp_all

lemma dropWhile_stop: "\<not> P x \<Longrightarrow> dropWhile P (xs @ x # ys) = dropWhile P xs @ x # ys"
  by (induction xs) simp_all

lemma hyphenated_end_iff:
  "hyphenated_end pre \<longleftrightarrow> (\<exists>a c. pre = a @ [c, CHR ''-''] \<and> is_word c)"
proof
  assume "hyphenated_end pre"
  then obtain c r where "rev pre = CHR ''-'' # c # r" "is_word c"
    by (auto simp: hyphenated_end_def split: list.splits)
  then have "pre = rev r @ [c, CHR ''-'']" "is_word c"
    by (simp_all add: rev_swap [symmetric])
  then show "\<exists>a c. pre = a @ [c, CHR ''-''] \<and> is_word c" by blast
next
  assume "\<exists>a c. pre = a @ [c, CHR ''-''] \<and> is_word c"
  then show "hyphenated_end pre" by (auto simp: hyphenated_end_def)
qed

lemma hyphenated_end_append: "hyphenated_end ys \<Longrightarrow> hyphenated_end (xs @ ys)"
  unfolding hyphenated_end_iff by (metis append_assoc)

lemma hyphen_pat_no_Bos: "Bos \<notin> set hyphen_pat"
  by (simp add: hyphen_pat_def)

lemma hyphen_match_nonempty: "match_items hyphen_pat pos s = Some ps \<Longrightarrow> concat ps \<noteq> []"
  by (auto simp: hyphen_match split: list.splits if_splits)

lemma hyphen_match_before_LF:
  assumes "\<not> hyphenated_end pre"
  shows "match_items hyphen_pat pos (pre @ LF # post) = match_items hyphen_pat pos pre"
proof -
  have t: "takeWhile is_word (pre @ LF # post) = takeWhile is_word pre"
    by (rule takeWhile_stop [where P = is_word, OF not_word_LF])
  have d: "dropWhile is_word (pre @ LF # post) = dropWhile is_word pre @ LF # post"
    by (rule dropWhile_stop [where P = is_word, OF not_word_LF])
  show ?thesis
  proof (cases "dropWhile is_word pre")
    case Nil
    show ?thesis unfolding hyphen_match t d Nil by (simp split: list.splits)
  next
    case c1: (Cons a r1)
    show ?thesis
    proof (cases r1)
      case Nil
      have "\<not> (takeWhile is_word pre \<noteq> [] \<and> a = CHR ''-'')"
      proof
        assume h: "takeWhile is_word pre \<noteq> [] \<and> a = CHR ''-''"
        let ?w = "takeWhile is_word pre"
        have "pre = ?w @ dropWhile is_word pre" by simp
        then have p: "pre = ?w @ [CHR ''-'']" unfolding c1 Nil using h by simp
        have "butlast ?w @ [last ?w] = ?w" using h by simp
        then have "?w @ [CHR ''-''] = butlast ?w @ [last ?w, CHR ''-'']"
          by (metis append.assoc append_Cons append_Nil)
        with p have "pre = butlast ?w @ [last ?w, CHR ''-'']" by (rule trans)
        moreover have "is_word (last ?w)"
          using h by (meson last_in_set set_takeWhileD)
        ultimately have "hyphenated_end pre"
          unfolding hyphenated_end_iff by blast
        with assms show False by simp
      qed
      then show ?thesis unfolding hyphen_match t d c1 Nil by (auto split: list.splits)
    next
      case (Cons b r2)
      have "takeWhile is_word (r2 @ LF # post) = takeWhile is_word r2"
        by (rule takeWhile_stop [where P = is_word, OF not_word_LF])
      then show ?thesis
        unfolding hyphen_match t d c1 Cons by simp
    qed
  qed
qed

lemma hyphen_keeps_break:
  "\<not> hyphenated_end pre \<Longrightarrow>
   re_sub hyphen_pat hyphen_repl (pre @ LF # post)
     = re_sub hyphen_pat hyphen_repl pre @ LF # re_sub hyphen_pat hyphen_repl post"
proof (induction "length pre" arbitrary: pre rule: less_induct)
  case less
  note nb = hyphen_pat_no_Bos
  have m: "match_items hyphen_pat 0 (pre @ LF # post) = match_items hyphen_pat 0 pre"
    using less.prems by (rule hyphen_match_before_LF)
  show ?case
  proof (cases "match_items hyphen_pat 0 pre")
    case None
    show ?thesis
    proof (cases pre)
      case Nil
      with None m show ?thesis
        by (simp add: re_sub_Nil re_sub_no_match [OF nb])
    next
      case (Cons c pre')
      have "\<not> hyphenated_end pre'"
        using less.prems Cons hyphenated_end_append [of pre' "[c]"] by auto
      with less.hyps [of pre'] Cons
      have "re_sub hyphen_pat hyphen_repl (pre' @ LF # post)
            = re_sub hyphen_pat hyphen_repl pre' @ LF # re_sub hyphen_pat hyphen_repl post"
        by simp
      moreover have "re_sub hyphen_pat hyphen_repl (c # pre' @ LF # post)
            = c # re_sub hyphen_pat hyphen_repl (pre' @ LF # post)"
        using m None Cons by (intro re_sub_no_match [OF nb]) simp
      moreover have "re_sub hyphen_pat hyphen_repl (c # pre')
            = c # re_sub hyphen_pat hyphen_repl pre'"
        using None Cons by (intro re_sub_no_match [OF nb]) simp
      ultimately show ?thesis using Cons by simp
    qed
  next
    case (Some ps)
    let ?n = "length (concat ps)"
    have ne: "concat ps \<noteq> []" using Some by (rule hyphen_match_nonempty)
    have le: "?n \<le> length pre" using Some by (rule match_items_length)
    have short: "length (drop ?n pre) < length pre"
      using ne le by (cases pre) auto
    have "\<not> hyphenated_end (drop ?n pre)"
      using less.prems hyphenated_end_append [of "drop ?n pre" "take ?n pre"] by auto
    with less.hyps [OF short]
    have ih: "re_sub hyphen_pat hyphen_repl (drop ?n pre @ LF # post)
            = re_sub hyphen_pat hyphen_repl (drop ?n pre) @ LF # re_sub hyphen_pat hyphen_repl post"
      by simp
    have "re_sub hyphen_pat hyphen_repl (pre @ LF # post)
          = expand hyphen_repl ps @ re_sub hyphen_pat hyphen_repl (drop ?n (pre @ LF # post))"
      using m Some ne by (intro re_sub_match [OF nb]) simp_all
    moreover have "drop ?n (pre @ LF # post) = drop ?n pre @ LF # post"
      using le by simp
    moreover have "re_sub hyphen_pat hyphen_repl pre
          = expand hyphen_repl ps @ re_sub hyphen_pat hyphen_repl (drop ?n pre)"
      using Some ne by (intro re_sub_match [OF nb])
    ultimately show ?thesis using ih by simp
  qed
qed

lemma takeWhile_all_stop:
  "list_all P xs \<Longrightarrow> ys = [] \<or> \<not> P (hd ys) \<Longrightarrow> takeWhile P (xs @ ys) = xs"
  by (induction xs) (auto simp: takeWhile_eq_Nil_iff)

lemma dropWhile_all_stop:
  "list_all P xs \<Longrightarrow> ys = [] \<or> \<not> P (hd ys) \<Longrightarrow> dropWhile P (xs @ ys) = ys"
  by (induction xs) (auto simp: dropWhile_eq_self_iff)

lemma hyphen_joins:
  assumes "w1 \<noteq> []" "list_all is_word w1" "w2 \<noteq> []" "list_all is_word w2"
    and "post = [] \<or> \<not> is_word (hd post)"
  shows "re_sub hyphen_pat hyphen_repl (w1 @ ''-'' @ [LF] @ w2 @ post)
         = w1 @ w2 @ re_sub hyphen_pat hyphen_repl post"
proof -
  let ?s = "w1 @ ''-'' @ [LF] @ w2 @ post"
  have t1: "takeWhile is_word ?s = w1"
    using assms(2) not_word_hyphen by (intro takeWhile_all_stop) simp_all
  have d1: "dropWhile is_word ?s = CHR ''-'' # LF # w2 @ post"
    using dropWhile_all_stop [of is_word w1 "CHR ''-'' # LF # w2 @ post"] assms(2) not_word_hyphen
    by simp
  have t2: "takeWhile is_word (w2 @ post) = w2"
    using assms(4,5) by (intro takeWhile_all_stop)
  have "match_items hyphen_pat 0 ?s = Some [w1, ''-'', [LF], w2]"
    unfolding hyphen_match d1 using t1 t2 assms(1,3) by simp
  from re_sub_match [OF hyphen_pat_no_Bos this, of hyphen_repl] assms(1)
  show ?thesis by (simp add: hyphen_repl_def)
qed

text \<open>
  A text begins with a hyphenated line break: a word fragment, a hyphen, a line feed and
  a word fragment, the fragments being as long as they can.
\<close>

definition starts_hyphenated :: "string \<Rightarrow> bool" where
  "starts_hyphenated s \<longleftrightarrow>
     takeWhile is_word s \<noteq> [] \<and> take 2 (dropWhile is_word s) = [CHR ''-'', LF] \<and>
     takeWhile is_word (drop 2 (dropWhile is_word s)) \<noteq> []"

text \<open>A text ends in a word character, a hyphen and a line feed.\<close>

definition ends_in_break :: "string \<Rightarrow> bool" where
  "ends_in_break pre =
     (case rev pre of l # h # c # r \<Rightarrow> l = LF \<and> h = CHR ''-'' \<and> is_word c | _ \<Rightarrow> False)"

lemma hyphen_match_starts:
  "match_items hyphen_pat pos s =
     (if starts_hyphenated s
      then Some [takeWhile is_word s, ''-'', [LF], takeWhile is_word (drop 2 (dropWhile is_word s))]
      else None)"
proof (cases "dropWhile is_word s")
  case Nil
  then show ?thesis unfolding hyphen_match starts_hyphenated_def Nil by simp
next
  case c1: (Cons a r1)
  show ?thesis
  proof (cases r1)
    case Nil
    show ?thesis unfolding hyphen_match starts_hyphenated_def c1 Nil by simp
  next
    case (Cons b r2)
    show ?thesis unfolding hyphen_match starts_hyphenated_def c1 Cons by auto
  qed
qed

lemma starts_hyphenated_split:
  assumes "starts_hyphenated s"
  shows "s = takeWhile is_word s @ ''-'' @ [LF] @ takeWhile is_word (drop 2 (dropWhile is_word s))
             @ dropWhile is_word (drop 2 (dropWhile is_word s))"
proof -
  let ?r = "dropWhile is_word s"
  from assms have "take 2 ?r = [CHR ''-'', LF]" by (simp add: starts_hyphenated_def)
  then have "?r = [CHR ''-'', LF] @ drop 2 ?r" by (metis append_take_drop_id)
  moreover have "drop 2 ?r = takeWhile is_word (drop 2 ?r) @ dropWhile is_word (drop 2 ?r)"
    by simp
  moreover have "s = takeWhile is_word s @ ?r" by simp
  ultimately show ?thesis by (metis append_Cons append_Nil)
qed

lemma hyphen_step:
  "re_sub hyphen_pat hyphen_repl s =
     (if starts_hyphenated s
      then takeWhile is_word s @ takeWhile is_word (drop 2 (dropWhile is_word s))
           @ re_sub hyphen_pat hyphen_repl (dropWhile is_word (drop 2 (dropWhile is_word s)))
      else (case s of [] \<Rightarrow> [] | c # cs \<Rightarrow> c # re_sub hyphen_pat hyphen_repl cs))"
proof (cases "starts_hyphenated s")
  case True
  let ?w1 = "takeWhile is_word s" and ?w2 = "takeWhile is_word (drop 2 (dropWhile is_word s))"
  let ?rest = "dropWhile is_word (drop 2 (dropWhile is_word s))"
  let ?ps = "[?w1, ''-'', [LF], ?w2]"
  have m: "match_items hyphen_pat 0 s = Some ?ps"
    using True by (simp add: hyphen_match_starts)
  have ne: "concat ?ps \<noteq> []" by simp
  have s: "s = concat ?ps @ ?rest"
    using starts_hyphenated_split [OF True] by simp
  have gen: "drop (length xs) (xs @ ys) = ys" for xs ys :: string by simp
  have "drop (length (concat ?ps)) (concat ?ps @ ?rest) = ?rest" by (rule gen)
  then have d: "drop (length (concat ?ps)) s = ?rest" by (subst (2) s)
  have "re_sub hyphen_pat hyphen_repl s
        = expand hyphen_repl ?ps @ re_sub hyphen_pat hyphen_repl (drop (length (concat ?ps)) s)"
    using hyphen_pat_no_Bos m ne by (rule re_sub_match)
  then show ?thesis using True unfolding d by (simp add: hyphen_repl_def)
next
  case False
  then have m: "match_items hyphen_pat 0 s = None" by (simp add: hyphen_match_starts)
  show ?thesis
  proof (cases s)
    case Nil
    with m False show ?thesis by (simp add: re_sub_Nil)
  next
    case (Cons c cs)
    with m False re_sub_no_match [OF hyphen_pat_no_Bos, of c cs hyphen_repl] show ?thesis
      by simp
  qed
qed

lemma ends_in_break_iff:
  "ends_in_break pre \<longleftrightarrow> (\<exists>a c. pre = a @ [c, CHR ''-'', LF] \<and> is_word c)"
proof
  assume "ends_in_break pre"
  then obtain c r where "rev pre = LF # CHR ''-'' # c # r" "is_word c"
    by (auto simp: ends_in_break_def split: list.splits)
  then have "pre = rev r @ [c, CHR ''-'', LF]" "is_word c"
    by (simp_all add: rev_swap [symmetric])
  then show "\<exists>a c. pre = a @ [c, CHR ''-'', LF] \<and> is_word c" by blast
next
  assume "\<exists>a c. pre = a @ [c, CHR ''-'', LF] \<and> is_word c"
  then show "ends_in_break pre" by (auto simp: ends_in_break_def)
qed

lemma ends_in_break_append: "ends_in_break ys \<Longrightarrow> ends_in_break (xs @ ys)"
  unfolding ends_in_break_iff by (metis append_assoc)

lemma hyphen_match_before_word:
  assumes "pre \<noteq> []" "\<not> is_word (last pre)" "\<not> ends_in_break pre" "x \<noteq> []" "is_word (hd x)"
  shows "match_items hyphen_pat pos (pre @ x) = match_items hyphen_pat pos pre"
proof -
  have stop: "last pre \<in> set pre" using assms(1) by simp
  have t: "takeWhile is_word (pre @ x) = takeWhile is_word pre"
    using stop assms(2) by (rule takeWhile_append1)
  have d: "dropWhile is_word (pre @ x) = dropWhile is_word pre @ x"
    using stop assms(2) by (rule dropWhile_append1)
  obtain b xs where x: "x = b # xs" "is_word b"
    using assms(4,5) by (cases x) auto
  then have bLF: "b \<noteq> LF" using not_word_LF by auto
  have tx: "takeWhile is_word x \<noteq> []" using x by simp
  have pre: "pre = takeWhile is_word pre @ dropWhile is_word pre" by simp
  show ?thesis
  proof (cases "dropWhile is_word pre")
    case Nil
    then have "\<forall>c \<in> set pre. is_word c" by (simp add: dropWhile_eq_Nil_conv)
    with stop assms(2) show ?thesis by blast
  next
    case c1: (Cons a r1)
    show ?thesis
    proof (cases r1)
      case Nil
      show ?thesis unfolding hyphen_match t d c1 Nil using bLF x by simp
    next
      case c2: (Cons b' r2)
      show ?thesis
      proof (cases r2)
        case Nil
        have "\<not> (takeWhile is_word pre \<noteq> [] \<and> a = CHR ''-'' \<and> b' = LF)"
        proof
          assume h: "takeWhile is_word pre \<noteq> [] \<and> a = CHR ''-'' \<and> b' = LF"
          let ?w = "takeWhile is_word pre"
          have p: "pre = ?w @ [CHR ''-'', LF]"
            using pre h unfolding c1 c2 Nil by simp
          have "butlast ?w @ [last ?w] = ?w" using h by simp
          then have "?w @ [CHR ''-'', LF] = butlast ?w @ [last ?w, CHR ''-'', LF]"
            by (metis append.assoc append_Cons append_Nil)
          with p have "pre = butlast ?w @ [last ?w, CHR ''-'', LF]" by (rule trans)
          moreover have "is_word (last ?w)"
            using h by (meson last_in_set set_takeWhileD)
          ultimately have "ends_in_break pre"
            unfolding ends_in_break_iff by blast
          with assms(3) show False by simp
        qed
        then show ?thesis unfolding hyphen_match t d c1 c2 Nil by auto
      next
        case (Cons c r3)
        have "last pre = last r2"
          using pre unfolding c1 c2 Cons by (metis last_appendR last_ConsR list.distinct(1))
        moreover have "last r2 \<in> set r2" unfolding Cons by simp
        ultimately have "takeWhile is_word (r2 @ x) = takeWhile is_word r2"
          using assms(2) by (intro takeWhile_append1 [of "last r2"]) simp_all
        then show ?thesis unfolding hyphen_match t d c1 c2 by simp
      qed
    qed
  qed
qed

lemma re_sub_hyphen_Nil: "re_sub hyphen_pat hyphen_repl [] = []"
  by (subst hyphen_step) (simp add: starts_hyphenated_def)

lemma hyphen_before_word:
  assumes "x \<noteq> []" "is_word (hd x)"
  shows "pre = [] \<or> \<not> is_word (last pre) \<Longrightarrow> \<not> ends_in_break pre \<Longrightarrow>
   re_sub hyphen_pat hyphen_repl (pre @ x)
     = re_sub hyphen_pat hyphen_repl pre @ re_sub hyphen_pat hyphen_repl x"
proof (induction "length pre" arbitrary: pre rule: less_induct)
  case less
  note nb = hyphen_pat_no_Bos
  show ?case
  proof (cases pre)
    case Nil
    then show ?thesis by (simp add: re_sub_hyphen_Nil)
  next
    case (Cons c pre')
    then have ne: "pre \<noteq> []" and lw: "\<not> is_word (last pre)" using less.prems(1) by auto
    have m: "match_items hyphen_pat 0 (pre @ x) = match_items hyphen_pat 0 pre"
      using ne lw less.prems(2) assms by (rule hyphen_match_before_word)
    show ?thesis
    proof (cases "match_items hyphen_pat 0 pre")
      case None
      have ok: "pre' = [] \<or> \<not> is_word (last pre')" using lw Cons by auto
      have "\<not> ends_in_break pre'"
        using less.prems(2) Cons ends_in_break_append [of pre' "[c]"] by auto
      with less.hyps [of pre'] Cons ok
      have "re_sub hyphen_pat hyphen_repl (pre' @ x)
            = re_sub hyphen_pat hyphen_repl pre' @ re_sub hyphen_pat hyphen_repl x"
        by simp
      moreover have "re_sub hyphen_pat hyphen_repl (c # pre' @ x)
            = c # re_sub hyphen_pat hyphen_repl (pre' @ x)"
        using m None Cons by (intro re_sub_no_match [OF nb]) simp
      moreover have "re_sub hyphen_pat hyphen_repl (c # pre')
            = c # re_sub hyphen_pat hyphen_repl pre'"
        using None Cons by (intro re_sub_no_match [OF nb]) simp
      ultimately show ?thesis using Cons by simp
    next
      case (Some ps)
      let ?n = "length (concat ps)"
      have cne: "concat ps \<noteq> []" using Some by (rule hyphen_match_nonempty)
      have le: "?n \<le> length pre" using Some by (rule match_items_length)
      have short: "length (drop ?n pre) < length pre"
        using cne le by (cases pre) auto
      have ok: "drop ?n pre = [] \<or> \<not> is_word (last (drop ?n pre))"
        using lw by (cases "drop ?n pre = []") simp_all
      have "\<not> ends_in_break (drop ?n pre)"
        using less.prems(2) ends_in_break_append [of "drop ?n pre" "take ?n pre"] by auto
      with less.hyps [OF short] ok
      have ih: "re_sub hyphen_pat hyphen_repl (drop ?n pre @ x)
              = re_sub hyphen_pat hyphen_repl (drop ?n pre) @ re_sub hyphen_pat hyphen_repl x"
        by simp
      have "re_sub hyphen_pat hyphen_repl (pre @ x)
            = expand hyphen_repl ps @ re_sub hyphen_pat hyphen_repl (drop ?n (pre @ x))"
        using m Some cne by (intro re_sub_match [OF nb]) simp_all
      moreover have "drop ?n (pre @ x) = drop ?n pre @ x"
        using le by simp
      moreover have "re_sub hyphen_pat hyphen_repl pre
            = expand hyphen_repl ps @ re_sub hyphen_pat hyphen_repl (drop ?n pre)"
        using Some cne by (intro re_sub_match [OF nb])
      ultimately show ?thesis using ih by simp
    qed
  qed
qed

lemma hyphen_joins_in_context:
  assumes "w1 \<noteq> []" "list_all is_word w1" "w2 \<noteq> []" "list_all is_word w2"
    and "post = [] \<or> \<not> is_word (hd post)"
    and "pre = [] \<or> \<not> is_word (last pre)" and "\<not> ends_in_break pre"
  shows "re_sub hyphen_pat hyphen_repl (pre @ w1 @ ''-'' @ [LF] @ w2 @ post)
         = re_sub hyphen_pat hyphen_repl pre @ w1 @ w2 @ re_sub hyphen_pat hyphen_repl post"
proof -
  let ?x = "w1 @ ''-'' @ [LF] @ w2 @ post"
  have "?x \<noteq> []" "is_word (hd ?x)" using assms(1,2) by (cases w1; simp)+
  from hyphen_before_word [OF this assms(6,7)] hyphen_joins [OF assms(1-5)]
  show ?thesis by simp
qed

lemma clean_paragraphs_acc: "clean_paragraphs ps acc = acc @ map clean_para ps"
  by (induction ps arbitrary: acc) simp_all

lemma clean_extracted_text_passes:
  "clean_extracted_text cfg wn text0 =
     (let cleaned_text = join [LF, LF] (map clean_para (re_split para_pat
            (re_sub period_pat period_repl
               (re_sub hyphen_pat hyphen_repl (remove_page_headers text0)))))
      in if split_words cfg then split_concatenated_words wn cleaned_text else cleaned_text)"
  by (simp add: clean_extracted_text_def Let_def clean_paragraphs_acc)

lemma hyphen_examples:
  "re_sub hyphen_pat hyphen_repl (''exam-'' @ [LF] @ ''ple'') = ''example''"
  "re_sub hyphen_pat hyphen_repl (''the exam-'' @ [LF] @ ''ple'') = ''the example''"
  "re_sub hyphen_pat hyphen_repl (''a-'' @ [LF] @ ''b-'' @ [LF] @ ''c'') = ''ab-'' @ [LF] @ ''c''"
  "join [LF, LF] (map clean_para (re_split para_pat (re_sub period_pat period_repl
      (re_sub hyphen_pat hyphen_repl (remove_page_headers (''the exam-'' @ [LF] @ ''ple''))))))
   = ''the example''"
  by code_simp+

text \<open>
  C7, as the claim states it, fails: in \<open>a-\nb-\nc\<close> the fragment \<open>b\<close>, a hyphen, a line
  feed and the fragment \<open>c\<close> follow one another, and the pass leaves them as they are.
\<close>

theorem hyphen_chain_counterexample:
  "re_sub hyphen_pat hyphen_repl (''a-'' @ [LF] @ ''b-'' @ [LF] @ ''c'') = ''ab-'' @ [LF] @ ''c'' \<and>
   re_sub hyphen_pat hyphen_repl (''a-'' @ [LF] @ ''b-'' @ [LF] @ ''c'') \<noteq> ''abc''"
  unfolding hyphen_examples by simp

text \<open>
  C7, amended. Hyphenation repair is the second pass of the cleaner, on the text without
  page headers. It scans the text from the left: where the text at the scan position
  begins with a word fragment, a hyphen, a line feed and a word fragment (fragments as
  long as they can be), the two fragments are written joined and the scan goes on behind
  the second fragment; elsewhere one character is copied. So \<open>exam-\nple\<close> becomes
  \<open>example\<close>, also inside a text; a hyphenated line break is joined wherever the text
  before its first fragment does not end in a word character, nor in a hyphenated line
  break whose second fragment the first fragment would be; and a line feed that does
  not follow a word character and a hyphen stays where it is, the texts on its two sides
  being repaired on their own.
\<close>

theorem hyphenation_repair:
  "re_sub hyphen_pat hyphen_repl (''exam-'' @ [LF] @ ''ple'') = ''example'' \<and>
   re_sub hyphen_pat hyphen_repl (''the exam-'' @ [LF] @ ''ple'') = ''the example'' \<and>
   re_sub hyphen_pat hyphen_repl s =
     (if starts_hyphenated s
      then takeWhile is_word s @ takeWhile is_word (drop 2 (dropWhile is_word s))
           @ re_sub hyphen_pat hyphen_repl (dropWhile is_word (drop 2 (dropWhile is_word s)))
      else (case s of [] \<Rightarrow> [] | c # cs \<Rightarrow> c # re_sub hyphen_pat hyphen_repl cs)) \<and>
   (w1 \<noteq> [] \<and> list_all is_word w1 \<and> w2 \<noteq> [] \<and> list_all is_word w2 \<and>
    (post = [] \<or> \<not> is_word (hd post)) \<and> (before = [] \<or> \<not> is_word (last before)) \<and>
    \<not> ends_in_break before \<longrightarrow>
      re_sub hyphen_pat hyphen_repl (before @ w1 @ ''-'' @ [LF] @ w2 @ post)
        = re_sub hyphen_pat hyphen_repl before @ w1 @ w2 @ re_sub hyphen_pat hyphen_repl post) \<and>
   (\<not> hyphenated_end pre \<longrightarrow>
      re_sub hyphen_pat hyphen_repl (pre @ [LF] @ rest)
        = re_sub hyphen_pat hyphen_repl pre @ [LF] @ re_sub hyphen_pat hyphen_repl rest) \<and>
   clean_extracted_text cfg wn text0 =
     (let cleaned_text = join [LF, LF] (map clean_para (re_split para_pat
            (re_sub period_pat period_repl
               (re_sub hyphen_pat hyphen_repl (remove_page_headers text0)))))
      in if split_words cfg then split_concatenated_words wn cleaned_text else cleaned_text) \<and>
   clean_extracted_text (cfg\<lparr>split_words := False\<rparr>) wn (''the exam-'' @ [LF] @ ''ple'')
     = ''the example''"
proof -
  have 1: "w1 \<noteq> [] \<and> list_all is_word w1 \<and> w2 \<noteq> [] \<and> list_all is_word w2 \<and>
    (post = [] \<or> \<not> is_word (hd post)) \<and> (before = [] \<or> \<not> is_word (last before)) \<and>
    \<not> ends_in_break before \<longrightarrow>
      re_sub hyphen_pat hyphen_repl (before @ w1 @ ''-'' @ [LF] @ w2 @ post)
        = re_sub hyphen_pat hyphen_repl before @ w1 @ w2 @ re_sub hyphen_pat hyphen_repl post"
    using hyphen_joins_in_context [of w1 w2 post before] by blast
  have 2: "\<not> hyphenated_end pre \<longrightarrow>
      re_sub hyphen_pat hyphen_repl (pre @ [LF] @ rest)
        = re_sub hyphen_pat hyphen_repl pre @ [LF] @ re_sub hyphen_pat hyphen_repl rest"
    using hyphen_keeps_break [of pre rest] by simp
  have 3: "clean_extracted_text (cfg\<lparr>split_words := False\<rparr>) wn (''the exam-'' @ [LF] @ ''ple'')
     = ''the example''"
    unfolding clean_extracted_text_passes hyphen_examples by (simp add: Let_def)
  show ?thesis
    using hyphen_examples(1,2) hyphen_step [of s] 1 2 clean_extracted_text_passes [of cfg wn text0] 3
    by (intro conjI)
qed

lemma hyphen_witness_facts:
  "list_all is_word ''exam''" "list_all is_word ''ple''" "\<not> is_word (hd '' now'')"
  "\<not> is_word (last ''the '')" "\<not> ends_in_break ''the ''"
  "re_sub hyphen_pat hyphen_repl '' now'' = '' now''"
  "re_sub hyphen_pat hyphen_repl ''the '' = ''the ''"
  "\<not> hyphenated_end ''two''"
  "re_sub hyphen_pat hyphen_repl ''two'' = ''two''"
  "re_sub hyphen_pat hyphen_repl ''lines'' = ''lines''"
  by code_simp+

theorem hyphenation_repair_witness:
  "re_sub hyphen_pat hyphen_repl (''the '' @ ''exam'' @ ''-'' @ [LF] @ ''ple'' @ '' now'')
     = ''the example now'' \<and>
   re_sub hyphen_pat hyphen_repl (''two'' @ [LF] @ ''lines'') = ''two'' @ [LF] @ ''lines''"
proof -
  note a = hyphenation_repair [where ?w1.0 = "''exam''" and ?w2.0 = "''ple''" and post = "'' now''"
      and before = "''the ''" and pre = "''two''" and rest = "''lines''"]
  note a4 = a [THEN conjunct2, THEN conjunct2, THEN conjunct2, THEN conjunct1]
  note a5 = a [THEN conjunct2, THEN conjunct2, THEN conjunct2, THEN conjunct2, THEN conjunct1]
  note facts = hyphen_witness_facts
  have ne: "''exam'' \<noteq> []" "''ple'' \<noteq> []" by simp_all
  from a4 ne facts(1-5)
  have "re_sub hyphen_pat hyphen_repl (''the '' @ ''exam'' @ ''-'' @ [LF] @ ''ple'' @ '' now'')
        = re_sub hyphen_pat hyphen_repl ''the '' @ ''exam'' @ ''ple''
          @ re_sub hyphen_pat hyphen_repl '' now''"
    by blast
  then have 1: "re_sub hyphen_pat hyphen_repl (''the '' @ ''exam'' @ ''-'' @ [LF] @ ''ple'' @ '' now'')
     = ''the example now''"
    unfolding facts(6,7) by simp
  from a5 facts(8)
  have "re_sub hyphen_pat hyphen_repl (''two'' @ [LF] @ ''lines'')
        = re_sub hyphen_pat hyphen_repl ''two'' @ [LF] @ re_sub hyphen_pat hyphen_repl ''lines''"
    by blast
  then have 2: "re_sub hyphen_pat hyphen_repl (''two'' @ [LF] @ ''lines'') = ''two'' @ [LF] @ ''lines''"
    unfolding facts(9,10) .
  from 1 2 show ?thesis by (rule conjI)
qed

end
